theory Spec2Isabelle
  imports Complex_Main "HOL-Library.Log_Nat"
begin

section \<open>JavaScript numbers\<close>

text \<open>
  Every number of the program is an IEEE-754 binary64 value. A finite value is modelled
  by the rational it denotes. An arithmetic operation computes the exact rational result
  and rounds it to the nearest representable value, ties to the even significand, with
  gradual underflow below \<open>2 powi (- 1022)\<close>. Infinities, NaN and the sign of zero are
  not represented: the exponent range is open upwards, so the model agrees with the
  program as long as no intermediate result reaches \<open>2 ^ 1024\<close>.
\<close>

type_synonym number = rat

definition ilog2 :: "rat \<Rightarrow> int" where
  "ilog2 x = (let (p, q) = quotient_of x; k = bitlen p - bitlen q
              in if 2 powi k \<le> x then k else k - 1)"

definition round_half_even :: "rat \<Rightarrow> int" where
  "round_half_even y =
     (let f = \<lfloor>y\<rfloor>; d = y - of_int f
      in if d < 1/2 then f else if 1/2 < d then f + 1 else if even f then f else f + 1)"

definition exponent :: "rat \<Rightarrow> int" where
  "exponent x = max (ilog2 \<bar>x\<bar> - 52) (- 1074)"

definition round_double :: "rat \<Rightarrow> number" where
  "round_double x =
     (if x = 0 then 0
      else sgn x * of_int (round_half_even (\<bar>x\<bar> / 2 powi exponent x)) * 2 powi exponent x)"

definition js_mul :: "number \<Rightarrow> number \<Rightarrow> number" where
  "js_mul a b = round_double (a * b)"

definition js_div :: "number \<Rightarrow> number \<Rightarrow> number" where
  "js_div a b = round_double (a / b)"

definition js_sub :: "number \<Rightarrow> number \<Rightarrow> number" where
  "js_sub a b = round_double (a - b)"

text \<open>\<open>Math.round\<close>: the nearest integer, a tie going to the larger one; it is exact.\<close>

definition Math_round :: "number \<Rightarrow> number" where
  "Math_round x = of_int \<lfloor>x + 1/2\<rfloor>"

text \<open>
  \<open>cents n\<close> is the value of \<open>n / 100\<close> for an integer \<open>n\<close>: the double that prints as
  \<open>n\<close> hundredths. \<open>sub_cent_budget\<close> is the literal \<open>0.006\<close>.
\<close>

definition cents :: "int \<Rightarrow> number" where
  "cents n = js_div (of_int n) 100"

definition sub_cent_budget :: number where
  "sub_cent_budget = round_double (6 / 1000)"

section \<open>Data model\<close>

datatype js_error = Error string | TypeError string

fun message :: "js_error \<Rightarrow> string" where
  "message (Error m) = m"
| "message (TypeError m) = m"

record step =
  agent :: string
  task :: string
  allocation :: number

text \<open>
  What \<open>JSON.parse(jsonMatch[0]).steps\<close> evaluates to: an array of step objects with
  numeric allocations, or a value that is no array (\<open>undefined\<close> when the key is missing,
  \<open>null\<close>, a number, a string, an object).
\<close>

datatype steps_value = Not_an_array | Steps "step list"

text \<open>
  The planner's reply as the \<open>try\<close> block of \<open>runMainAgent\<close> sees it: no text block in
  the reply, no brace-delimited match of the regular expression, a match that
  \<open>JSON.parse\<close> rejects, or a parsed object with its \<open>steps\<close> property.
\<close>

datatype plan_reply = No_text | No_match | Invalid_JSON | Parsed steps_value

datatype event =
    Step_start string string number number
  | Step_complete string string number string number
  | Report string
  | Refund number string
  | Agent_start string number number
  | Agent_error string string
  | Agent_complete string string string string number number
  | Analysis_complete "(string \<times> string) list"
  | Report_saved string

text \<open>
  The external collaborators (\<open>hederaService\<close>, the Anthropic client, the persistence
  function) are given by their outcomes in one run: \<open>Inl\<close> is a thrown error, \<open>Inr\<close> the
  returned value. \<open>paySubAgent\<close> is keyed by the call site: the position of the step in
  \<open>runMainAgent\<close>, the agent in \<open>runCodebaseAnalysis\<close>.
\<close>

record 'k ledger =
  initClient :: "js_error option"
  createHCSTopic :: "js_error + string"
  fundAgent :: "js_error + string"
  paySubAgent :: "'k \<Rightarrow> js_error + string"
  refundRemainder :: "js_error + string"

record main_env = "nat ledger" +
  planResponse :: "js_error + plan_reply"
  runSubAgent :: "nat \<Rightarrow> js_error + string"
  formatFinalReport :: "js_error + string"

record 'r run_state =
  remainingBudget :: number
  results :: 'r
  events :: "event list"

record 'r outcome =
  returned_results :: 'r
  spent :: number
  refunded :: number

record main_outcome = "(string \<times> string \<times> string) list outcome" +
  finalReport :: string
  refundTxId :: string

section \<open>agentService.js\<close>

definition AGENT_BUDGET_RATIO :: number where
  "AGENT_BUDGET_RATIO = round_double (3 / 10)"

text \<open>\<open>Math.round(budgetInHbar * AGENT_BUDGET_RATIO * 100) / 100\<close>\<close>

definition totalAgentBudget :: "number \<Rightarrow> number" where
  "totalAgentBudget budgetInHbar =
     js_div (Math_round (js_mul (js_mul budgetInHbar AGENT_BUDGET_RATIO) 100)) 100"

text \<open>\<open>Math.round((allocation / 100) * totalAgentBudget * 100) / 100\<close>\<close>

definition payment :: "number \<Rightarrow> number \<Rightarrow> number" where
  "payment alloc pool =
     js_div (Math_round (js_mul (js_mul (js_div alloc 100) pool) 100)) 100"

text \<open>\<open>Math.round((remainingBudget - payment) * 100) / 100\<close>\<close>

definition deduct :: "number \<Rightarrow> number \<Rightarrow> number" where
  "deduct remaining paid = js_div (Math_round (js_mul (js_sub remaining paid) 100)) 100"

definition default_steps :: "string \<Rightarrow> step list" where
  "default_steps task_text =
     [\<lparr>agent = ''Research Agent'',
       task = ''Research and find relevant information for: '' @ task_text, allocation = 40\<rparr>,
      \<lparr>agent = ''Analysis Agent'',
       task = ''Analyze and evaluate the findings for: '' @ task_text, allocation = 35\<rparr>,
      \<lparr>agent = ''Writer Agent'',
       task = ''Write a clear final report for: '' @ task_text, allocation = 25\<rparr>]"

text \<open>The \<open>try\<close>/\<open>catch\<close> around the parse: every exception inside it selects the default steps.\<close>

fun parse_steps :: "string \<Rightarrow> plan_reply \<Rightarrow> steps_value" where
  "parse_steps task_text No_text = Steps (default_steps task_text)"
| "parse_steps task_text No_match = Steps (default_steps task_text)"
| "parse_steps task_text Invalid_JSON = Steps (default_steps task_text)"
| "parse_steps task_text (Parsed v) = v"

datatype loop_exit = Finished | Budget_exhausted | Threw js_error

type_synonym main_state = "(string \<times> string \<times> string) list run_state"

text \<open>
  The \<open>for (const step of steps)\<close> loop; \<open>k\<close> is the position of the step. The loop has
  no \<open>try\<close>: an error of \<open>runSubAgent\<close> or \<open>paySubAgent\<close> leaves the function.
\<close>

fun run_steps :: "main_env \<Rightarrow> number \<Rightarrow> nat \<Rightarrow> step list \<Rightarrow> main_state \<Rightarrow> main_state \<times> loop_exit" where
  "run_steps env pool k [] st = (st, Finished)"
| "run_steps env pool k (s # ss) st =
     (let amount = payment (allocation s) pool in
      if remainingBudget st < amount then (st, Budget_exhausted)
      else
        let st1 = st\<lparr>events := events st @ [Step_start (agent s) (task s) (allocation s) amount]\<rparr> in
        case runSubAgent env k of
          Inl e \<Rightarrow> (st1, Threw e)
        | Inr res \<Rightarrow>
            (case paySubAgent env k of
               Inl e \<Rightarrow> (st1, Threw e)
             | Inr txId \<Rightarrow>
                 let left = deduct (remainingBudget st1) amount in
                 run_steps env pool (Suc k) ss
                   (st1\<lparr>remainingBudget := left,
                        events := events st1 @ [Step_complete (agent s) (task s) amount txId left],
                        results := results st1 @ [(agent s, task s, res)]\<rparr>)))"

definition finish_main :: "main_env \<Rightarrow> number \<Rightarrow> main_state \<Rightarrow> event list \<times> (js_error + main_outcome)" where
  "finish_main env budgetInHbar st =
     (case formatFinalReport env of
        Inl e \<Rightarrow> (events st, Inl e)
      | Inr report \<Rightarrow>
          (case refundRemainder env of
             Inl e \<Rightarrow> (events st @ [Report report], Inl e)
           | Inr txId \<Rightarrow>
               (events st @ [Report report, Refund (remainingBudget st) txId],
                Inr \<lparr>returned_results = results st,
                     spent = js_sub budgetInHbar (remainingBudget st),
                     refunded = remainingBudget st,
                     finalReport = report, refundTxId = txId\<rparr>)))"

definition runMainAgent :: "main_env \<Rightarrow> string \<Rightarrow> number \<Rightarrow> event list \<times> (js_error + main_outcome)" where
  "runMainAgent env task_text budgetInHbar =
     (case initClient env of
        Some e \<Rightarrow> ([], Inl e)
      | None \<Rightarrow>
     (case createHCSTopic env of
        Inl e \<Rightarrow> ([], Inl e)
      | Inr topicId \<Rightarrow>
     (case fundAgent env of
        Inl e \<Rightarrow> ([], Inl e)
      | Inr scheduleId \<Rightarrow>
     (case planResponse env of
        Inl e \<Rightarrow> ([], Inl e)
      | Inr reply \<Rightarrow>
     (case parse_steps task_text reply of
        Not_an_array \<Rightarrow> ([], Inl (TypeError ''steps is not an array''))
      | Steps steps \<Rightarrow>
     (case run_steps env (totalAgentBudget budgetInHbar) 0 steps
             \<lparr>remainingBudget = budgetInHbar, results = [], events = []\<rparr> of
        (st, Threw e) \<Rightarrow> (events st, Inl e)
      | (st, _) \<Rightarrow> finish_main env budgetInHbar st))))))"

section \<open>codebaseAgentService.js\<close>

datatype agent_id = Code_Reader | Simplifier | Analogy | Insight

fun agent_name :: "agent_id \<Rightarrow> string" where
  "agent_name Code_Reader = ''Code Reader Agent''"
| "agent_name Simplifier = ''Simplifier Agent''"
| "agent_name Analogy = ''Analogy Agent''"
| "agent_name Insight = ''Insight Agent''"

fun agent_key :: "agent_id \<Rightarrow> string" where
  "agent_key Code_Reader = ''codeReader''"
| "agent_key Simplifier = ''simplifier''"
| "agent_key Analogy = ''analogy''"
| "agent_key Insight = ''insight''"

fun AGENT_ALLOCATIONS :: "agent_id \<Rightarrow> number" where
  "AGENT_ALLOCATIONS Code_Reader = 30"
| "AGENT_ALLOCATIONS Simplifier = 20"
| "AGENT_ALLOCATIONS Analogy = 25"
| "AGENT_ALLOCATIONS Insight = 25"

text \<open>
  \<open>payLatency\<close> is the time each \<open>paySubAgent\<close> call of the parallel phase takes to
  settle: the callbacks of \<open>Promise.all\<close> resume in that order. \<open>persistFn\<close> is \<open>None\<close>
  when the argument is no function.
\<close>

record codebase_env = "agent_id ledger" +
  runCodeReaderAgent :: "js_error + string"
  runSimplifierAgent :: "js_error + string"
  runAnalogyAgent :: "js_error + string"
  runInsightAgent :: "js_error + string"
  payLatency :: "agent_id \<Rightarrow> nat"
  persistFn :: "(js_error + string) option"

type_synonym codebase_state = "(string \<times> string) list run_state"

text \<open>Assignment to a property of the \<open>results\<close> object; properties keep insertion order.\<close>

fun assign :: "string \<Rightarrow> string \<Rightarrow> (string \<times> string) list \<Rightarrow> (string \<times> string) list" where
  "assign k v [] = [(k, v)]"
| "assign k v ((k', v') # rest) = (if k' = k then (k, v) # rest else (k', v') # assign k v rest)"

definition codeReader_fallback :: string where
  "codeReader_fallback = ''{techStack: [], modules: [], dependencies: [], architectureMap: {description: Analysis unavailable.}}''"

definition pay :: "number \<Rightarrow> agent_id \<Rightarrow> number" where
  "pay pool name = payment (AGENT_ALLOCATIONS name) pool"

text \<open>
  Phase 1. The \<open>catch\<close> emits the error event and stores the fallback; the payment and
  the \<open>agent_complete\<close> event after it are outside the \<open>try\<close>.
\<close>

definition phase1 :: "codebase_env \<Rightarrow> number \<Rightarrow> codebase_state \<Rightarrow> codebase_state \<times> js_error option" where
  "phase1 env pool st =
     (let crPayment = pay pool Code_Reader;
          st1 = st\<lparr>events := events st @
                  [Agent_start (agent_name Code_Reader) (AGENT_ALLOCATIONS Code_Reader) crPayment]\<rparr>;
          (codeReader, st2) =
             (case runCodeReaderAgent env of
                Inr v \<Rightarrow> (v, st1)
              | Inl err \<Rightarrow>
                  (codeReader_fallback,
                   st1\<lparr>events := events st1 @ [Agent_error (agent_name Code_Reader) (message err)]\<rparr>));
          st3 = st2\<lparr>results := assign ''codeReader'' codeReader (results st2)\<rparr>
      in case paySubAgent env Code_Reader of
           Inl e \<Rightarrow> (st3, Some e)
         | Inr crTxId \<Rightarrow>
             let left = deduct (remainingBudget st3) crPayment in
             (st3\<lparr>remainingBudget := left,
                  events := events st3 @
                    [Agent_complete (agent_name Code_Reader) ''codeReader'' codeReader
                       crTxId crPayment left]\<rparr>, None))"

text \<open>Phase 2: the three agents with what \<open>Promise.allSettled\<close> reports for each.\<close>

definition phase2 :: "codebase_env \<Rightarrow> (agent_id \<times> (js_error + string)) list" where
  "phase2 env =
     [(Simplifier, runSimplifierAgent env), (Analogy, runAnalogyAgent env),
      (Insight, runInsightAgent env)]"

text \<open>
  Each callback of \<open>phase2.map\<close> runs up to its first \<open>await\<close> when it is called: a
  rejected agent emits its error event there, a fulfilled one stores its value and calls
  \<open>paySubAgent\<close>.
\<close>

fun record_settled :: "(agent_id \<times> (js_error + string)) list \<Rightarrow> codebase_state \<Rightarrow> codebase_state" where
  "record_settled [] st = st"
| "record_settled ((a, Inr v) # rest) st =
     record_settled rest (st\<lparr>results := assign (agent_key a) v (results st)\<rparr>)"
| "record_settled ((a, Inl reason) # rest) st =
     record_settled rest (st\<lparr>events := events st @ [Agent_error (agent_name a) (message reason)]\<rparr>)"

fun fulfilled :: "(agent_id \<times> (js_error + string)) list \<Rightarrow> (agent_id \<times> string) list" where
  "fulfilled [] = []"
| "fulfilled ((a, Inr v) # rest) = (a, v) # fulfilled rest"
| "fulfilled ((a, Inl reason) # rest) = fulfilled rest"

text \<open>
  The rest of each fulfilled callback, in the order the payments settle. The first
  payment that throws rejects \<open>Promise.all\<close> and with it the run.
\<close>

fun pay_settled :: "codebase_env \<Rightarrow> number \<Rightarrow> (agent_id \<times> string) list \<Rightarrow> codebase_state \<Rightarrow> codebase_state \<times> js_error option" where
  "pay_settled env pool [] st = (st, None)"
| "pay_settled env pool ((a, v) # rest) st =
     (case paySubAgent env a of
        Inl e \<Rightarrow> (st, Some e)
      | Inr txId \<Rightarrow>
          let left = deduct (remainingBudget st) (pay pool a) in
          pay_settled env pool rest
            (st\<lparr>remainingBudget := left,
                events := events st @
                  [Agent_complete (agent_name a) (agent_key a) v txId (pay pool a) left]\<rparr>))"

definition run_phase2 :: "codebase_env \<Rightarrow> number \<Rightarrow> codebase_state \<Rightarrow> codebase_state \<times> js_error option" where
  "run_phase2 env pool st =
     (let st1 = st\<lparr>events := events st @
                  map (\<lambda>(a, r). Agent_start (agent_name a) (AGENT_ALLOCATIONS a) (pay pool a))
                    (phase2 env)\<rparr>;
          st2 = record_settled (phase2 env) st1
      in pay_settled env pool (sort_key (\<lambda>(a, v). payLatency env a) (fulfilled (phase2 env))) st2)"

definition finish_codebase :: "codebase_env \<Rightarrow> number \<Rightarrow> codebase_state \<Rightarrow> event list \<times> (js_error + (string \<times> string) list outcome)" where
  "finish_codebase env budgetInHbar st =
     (let st1 = st\<lparr>events := events st @ [Analysis_complete (results st)]\<rparr>;
          st2 = (case persistFn env of
                   Some (Inr shareId) \<Rightarrow>
                     if shareId \<noteq> [] then st1\<lparr>events := events st1 @ [Report_saved shareId]\<rparr>
                     else st1
                 | Some (Inl err) \<Rightarrow> st1
                 | None \<Rightarrow> st1)
      in case refundRemainder env of
           Inl e \<Rightarrow> (events st2, Inl e)
         | Inr txId \<Rightarrow>
             (events st2 @ [Refund (remainingBudget st2) txId],
              Inr \<lparr>returned_results = results st2,
                   spent = js_sub budgetInHbar (remainingBudget st2),
                   refunded = remainingBudget st2\<rparr>))"

definition runCodebaseAnalysis :: "codebase_env \<Rightarrow> number \<Rightarrow> event list \<times> (js_error + (string \<times> string) list outcome)" where
  "runCodebaseAnalysis env budgetInHbar =
     (case initClient env of
        Some e \<Rightarrow> ([], Inl e)
      | None \<Rightarrow>
     (case createHCSTopic env of
        Inl e \<Rightarrow> ([], Inl e)
      | Inr topicId \<Rightarrow>
     (case fundAgent env of
        Inl e \<Rightarrow> ([], Inl e)
      | Inr scheduleId \<Rightarrow>
     (case phase1 env (totalAgentBudget budgetInHbar)
             \<lparr>remainingBudget = budgetInHbar, results = [], events = []\<rparr> of
        (st, Some e) \<Rightarrow> (events st, Inl e)
      | (st, None) \<Rightarrow>
     (case run_phase2 env (totalAgentBudget budgetInHbar) st of
        (st', Some e) \<Rightarrow> (events st', Inl e)
      | (st', None) \<Rightarrow> finish_codebase env budgetInHbar st')))))"

section \<open>Observations on an event stream\<close>

datatype kind = K_start | K_complete | K_error

fun step_event :: "event \<Rightarrow> (string \<times> kind) option" where
  "step_event (Step_start a t al p) = Some (a, K_start)"
| "step_event (Step_complete a t p tx r) = Some (a, K_complete)"
| "step_event (Agent_start a al p) = Some (a, K_start)"
| "step_event (Agent_error a m) = Some (a, K_error)"
| "step_event (Agent_complete a k v tx p r) = Some (a, K_complete)"
| "step_event e = None"

definition step_kinds :: "event list \<Rightarrow> kind list" where
  "step_kinds evs = map snd (List.map_filter step_event evs)"

definition agent_trace :: "string \<Rightarrow> event list \<Rightarrow> kind list" where
  "agent_trace a evs = map snd (filter (\<lambda>(b, k). b = a) (List.map_filter step_event evs))"

fun remaining_after :: "event \<Rightarrow> number option" where
  "remaining_after (Step_complete a t p tx r) = Some r"
| "remaining_after (Agent_complete a k v tx p r) = Some r"
| "remaining_after e = None"

definition balances :: "number \<Rightarrow> event list \<Rightarrow> number list" where
  "balances budgetInHbar evs = budgetInHbar # List.map_filter remaining_after evs"

fun announced_payment :: "event \<Rightarrow> number option" where
  "announced_payment (Step_start a t al p) = Some p"
| "announced_payment (Agent_start a al p) = Some p"
| "announced_payment e = None"

fun settled_payment :: "event \<Rightarrow> number option" where
  "settled_payment (Step_complete a t p tx r) = Some p"
| "settled_payment (Agent_complete a k v tx p r) = Some p"
| "settled_payment e = None"

text \<open>The balances that result from deducting a list of payments one after the other.\<close>

fun replay :: "number \<Rightarrow> number list \<Rightarrow> number list" where
  "replay r [] = [r]"
| "replay r (p # ps) = r # replay (deduct r p) ps"

text \<open>The guard of the loop of \<open>runMainAgent\<close> along a list of payments.\<close>

fun affordable :: "number \<Rightarrow> number list \<Rightarrow> bool" where
  "affordable r [] = True"
| "affordable r (p # ps) = (\<not> r < p \<and> affordable (deduct r p) ps)"

text \<open>
  The whole numbers that \<open>Math.round\<close> returns in the computation of the pool and of a
  payment: the two amounts in hundredths.
\<close>

definition pool_cents :: "number \<Rightarrow> int" where
  "pool_cents budgetInHbar = \<lfloor>js_mul (js_mul budgetInHbar AGENT_BUDGET_RATIO) 100 + 1/2\<rfloor>"

definition payment_cents :: "number \<Rightarrow> number \<Rightarrow> int" where
  "payment_cents alloc pool = \<lfloor>js_mul (js_mul (js_div alloc 100) pool) 100 + 1/2\<rfloor>"

text \<open>What the call of each agent of \<open>runCodebaseAnalysis\<close> comes to.\<close>

fun worker :: "codebase_env \<Rightarrow> agent_id \<Rightarrow> js_error + string" where
  "worker env Code_Reader = runCodeReaderAgent env"
| "worker env Simplifier = runSimplifierAgent env"
| "worker env Analogy = runAnalogyAgent env"
| "worker env Insight = runInsightAgent env"

fun closing_kind :: "js_error + string \<Rightarrow> kind" where
  "closing_kind (Inl e) = K_error"
| "closing_kind (Inr v) = K_complete"

section \<open>Sample environments\<close>

definition main_ok :: main_env where
  "main_ok = \<lparr>initClient = None, createHCSTopic = Inr ''0.0.1001'', fundAgent = Inr ''0.0.2002'',
     paySubAgent = (\<lambda>k. Inr ''tx-pay''), refundRemainder = Inr ''tx-refund'',
     planResponse = Inr Invalid_JSON, runSubAgent = (\<lambda>k. Inr ''done''),
     formatFinalReport = Inr ''report''\<rparr>"

definition codebase_ok :: codebase_env where
  "codebase_ok = \<lparr>initClient = None, createHCSTopic = Inr ''0.0.1001'', fundAgent = Inr ''0.0.2002'',
     paySubAgent = (\<lambda>a. Inr ''tx-pay''), refundRemainder = Inr ''tx-refund'',
     runCodeReaderAgent = Inr ''architecture'', runSimplifierAgent = Inr ''glossary'',
     runAnalogyAgent = Inr ''slides'', runInsightAgent = Inr ''red flags'',
     payLatency = (\<lambda>a. 0), persistFn = None\<rparr>"

section \<open>Rounding to binary64\<close>

lemma pos_quot:
  assumes "0 < (x::rat)"
  obtains p q where "quotient_of x = (p, q)" "0 < p" "0 < q" "x = of_int p / of_int q"
proof -
  obtain p q where pq: "quotient_of x = (p, q)" by (cases "quotient_of x")
  have q: "0 < q" using quotient_of_denom_pos[OF pq] .
  have x: "x = of_int p / of_int q" using quotient_of_div[OF pq] .
  have "0 < p" using assms q x
    by (simp add: zero_less_divide_iff)
  with pq q x show thesis using that by blast
qed

lemma ilog2_bounds:
  assumes "0 < x"
  shows "2 powi ilog2 x \<le> x" and "x < 2 powi (ilog2 x + 1)"
proof -
  obtain p q where pq: "quotient_of x = (p, q)" "0 < p" "0 < q" "x = of_int p / of_int q"
    using pos_quot[OF assms] by blast
  define bp where "bp = bitlen p"
  define bq where "bq = bitlen q"
  have bp1: "1 \<le> bp" using pq(2) by (simp add: bp_def bitlen_alt_def)
  have bq1: "1 \<le> bq" using pq(3) by (simp add: bq_def bitlen_alt_def)
  have P: "(2::int) ^ nat (bp - 1) \<le> p" "p < 2 ^ nat bp"
    using bitlen_bounds[OF pq(2)] by (simp_all add: bp_def)
  have Q: "(2::int) ^ nat (bq - 1) \<le> q" "q < 2 ^ nat bq"
    using bitlen_bounds[OF pq(3)] by (simp_all add: bq_def)
  have Pr: "(2::rat) powi (bp - 1) \<le> of_int p" "of_int p < (2::rat) powi bp"
  proof -
    have "(of_int ((2::int) ^ nat (bp - 1)) :: rat) \<le> of_int p" using P(1) by (simp only: of_int_le_iff)
    then show "(2::rat) powi (bp - 1) \<le> of_int p" using bp1 by (simp add: power_int_def)
    have "(of_int p :: rat) < of_int ((2::int) ^ nat bp)" using P(2) by (simp only: of_int_less_iff)
    then show "of_int p < (2::rat) powi bp" using bp1 by (simp add: power_int_def)
  qed
  have Qr: "(2::rat) powi (bq - 1) \<le> of_int q" "of_int q < (2::rat) powi bq"
  proof -
    have "(of_int ((2::int) ^ nat (bq - 1)) :: rat) \<le> of_int q" using Q(1) by (simp only: of_int_le_iff)
    then show "(2::rat) powi (bq - 1) \<le> of_int q" using bq1 by (simp add: power_int_def)
    have "(of_int q :: rat) < of_int ((2::int) ^ nat bq)" using Q(2) by (simp only: of_int_less_iff)
    then show "of_int q < (2::rat) powi bq" using bq1 by (simp add: power_int_def)
  qed
  have qpos: "(0::rat) < of_int q" using pq(3) by simp
  define k where "k = bp - bq"
  have up: "x < 2 powi (k + 1)"
  proof -
    have "x * of_int q = of_int p" using pq(4) qpos by simp
    also have "\<dots> < 2 powi bp" by (rule Pr(2))
    also have "\<dots> = 2 powi (k + 1) * 2 powi (bq - 1)"
      by (simp add: k_def power_int_add[symmetric])
    also have "\<dots> \<le> 2 powi (k + 1) * of_int q"
      by (rule mult_left_mono[OF Qr(1)]) simp
    finally show ?thesis using qpos by simp
  qed
  have lo: "2 powi (k - 1) \<le> x"
  proof -
    have "2 powi (k - 1) * of_int q \<le> 2 powi (k - 1) * (2::rat) powi bq"
      by (rule mult_left_mono) (use Qr(2) in simp_all)
    also have "\<dots> = 2 powi (bp - 1)"
      by (simp add: k_def power_int_add[symmetric])
    also have "\<dots> \<le> of_int p" by (rule Pr(1))
    also have "\<dots> = x * of_int q" using pq(4) qpos by simp
    finally show ?thesis using qpos by simp
  qed
  have il: "ilog2 x = (if 2 powi k \<le> x then k else k - 1)"
    by (simp add: ilog2_def pq(1) k_def bp_def bq_def Let_def)
  show "2 powi ilog2 x \<le> x" using lo by (simp add: il)
  show "x < 2 powi (ilog2 x + 1)" using up by (auto simp: il not_le)
qed

lemma pow2_less_iff: "(2::rat) powi a < 2 powi b \<longleftrightarrow> a < b"
proof
  assume "(2::rat) powi a < 2 powi b"
  show "a < b"
  proof (rule ccontr)
    assume "\<not> a < b"
    then have "b \<le> a" by simp
    then have "(2::rat) powi b \<le> 2 powi a" by (rule power_int_increasing) simp
    with \<open>(2::rat) powi a < 2 powi b\<close> show False by simp
  qed
next
  assume "a < b"
  then show "(2::rat) powi a < 2 powi b" by (rule power_int_strict_increasing) simp
qed

lemma pow2_le_iff: "(2::rat) powi a \<le> 2 powi b \<longleftrightarrow> a \<le> b"
  using pow2_less_iff[of b a] by (auto simp: not_less[symmetric])

lemma ilog2_unique:
  assumes "2 powi k \<le> x" "x < 2 powi (k + 1)"
  shows "ilog2 x = k"
proof -
  have x: "0 < x" by (rule less_le_trans[OF _ assms(1)]) simp
  note b = ilog2_bounds[OF x]
  have "2 powi k < (2::rat) powi (ilog2 x + 1)" using assms(1) b(2) by (rule le_less_trans)
  then have 1: "k < ilog2 x + 1" by (simp only: pow2_less_iff)
  have "2 powi ilog2 x < (2::rat) powi (k + 1)" using b(1) assms(2) by (rule le_less_trans)
  then have 2: "ilog2 x < k + 1" by (simp only: pow2_less_iff)
  from 1 2 show ?thesis by simp
qed

lemma ilog2_mono:
  assumes "0 < x" "x \<le> y"
  shows "ilog2 x \<le> ilog2 y"
proof -
  have y: "0 < y" using assms by simp
  have "2 powi ilog2 x \<le> x" by (rule ilog2_bounds(1)[OF assms(1)])
  also note assms(2)
  also have "y < 2 powi (ilog2 y + 1)" by (rule ilog2_bounds(2)[OF y])
  finally have "ilog2 x < ilog2 y + 1" by (simp only: pow2_less_iff)
  then show ?thesis by simp
qed

lemma round_half_even_err: "\<bar>of_int (round_half_even y) - y\<bar> \<le> 1/2"
proof -
  have "of_int \<lfloor>y\<rfloor> \<le> y" "y < of_int \<lfloor>y\<rfloor> + 1" by linarith+
  then show ?thesis by (auto simp: round_half_even_def Let_def abs_le_iff)
qed

lemma round_half_even_of_int [simp]: "round_half_even (of_int n) = n"
  by (simp add: round_half_even_def)

lemma round_half_even_mono:
  assumes "y \<le> z"
  shows "round_half_even y \<le> round_half_even z"
proof -
  have fl: "\<lfloor>y\<rfloor> \<le> \<lfloor>z\<rfloor>" using assms by (rule floor_mono)
  have ry: "round_half_even y \<le> \<lfloor>y\<rfloor> + 1" "\<lfloor>y\<rfloor> \<le> round_half_even y"
    by (auto simp: round_half_even_def Let_def)
  have rz: "\<lfloor>z\<rfloor> \<le> round_half_even z"
    by (auto simp: round_half_even_def Let_def)
  show ?thesis
  proof (cases "\<lfloor>y\<rfloor> = \<lfloor>z\<rfloor>")
    case True
    with assms show ?thesis by (auto simp: round_half_even_def Let_def)
  next
    case False
    with fl have "\<lfloor>y\<rfloor> + 1 \<le> \<lfloor>z\<rfloor>" by simp
    with ry rz show ?thesis by linarith
  qed
qed

lemma round_half_even_le_int: "y \<le> of_int n \<Longrightarrow> round_half_even y \<le> n"
  using round_half_even_mono[of y "of_int n"] by simp

lemma round_half_even_ge_int: "of_int n \<le> y \<Longrightarrow> n \<le> round_half_even y"
  using round_half_even_mono[of "of_int n" y] by simp

lemma round_double_zero [simp]: "round_double 0 = 0"
  by (simp add: round_double_def)

lemma exponent_minus [simp]: "exponent (- x) = exponent x"
  by (simp add: exponent_def)

lemma round_double_minus: "round_double (- x) = - round_double x"
  by (simp add: round_double_def)

lemma round_double_pos:
  "0 < x \<Longrightarrow> round_double x = of_int (round_half_even (x / 2 powi exponent x)) * 2 powi exponent x"
  by (simp add: round_double_def)

lemma exponent_ge: "- 1074 \<le> exponent x" "ilog2 \<bar>x\<bar> - 52 \<le> exponent x"
  by (simp_all add: exponent_def)

lemma mantissa_less:
  assumes "0 < x"
  shows "x / 2 powi exponent x < 2 ^ 53"
proof -
  have "x < 2 powi (ilog2 x + 1)" by (rule ilog2_bounds(2)[OF assms])
  also have "\<dots> \<le> 2 powi (exponent x + 53)"
  proof -
    have "ilog2 x + 1 \<le> exponent x + 53" using exponent_ge(2)[of x] assms by simp
    then show ?thesis by (simp only: pow2_le_iff)
  qed
  also have "\<dots> = 2 powi exponent x * 2 ^ 53"
    by (simp add: power_int_add)
  finally show ?thesis by (simp add: pos_divide_less_eq mult.commute)
qed

lemma mantissa_ge:
  assumes "0 < x" "exponent x = ilog2 x - 52"
  shows "2 ^ 52 \<le> x / 2 powi exponent x"
proof -
  have "2 powi exponent x * 2 ^ 52 = (2::rat) powi (exponent x + 52)"
    by (simp add: power_int_add)
  also have "\<dots> = 2 powi ilog2 x" using assms(2) by simp
  also have "\<dots> \<le> x" by (rule ilog2_bounds(1)[OF assms(1)])
  finally show ?thesis by (simp add: pos_le_divide_eq mult.commute)
qed

lemma round_double_upper:
  assumes "0 < x"
  shows "round_double x \<le> 2 powi (exponent x + 53)"
proof -
  have "x / 2 powi exponent x \<le> of_int (2 ^ 53)"
    using mantissa_less[OF assms] by simp
  then have "round_half_even (x / 2 powi exponent x) \<le> 2 ^ 53"
    by (rule round_half_even_le_int)
  then have "(of_int (round_half_even (x / 2 powi exponent x)) :: rat) \<le> of_int (2 ^ 53)"
    by (simp only: of_int_le_iff)
  then have "of_int (round_half_even (x / 2 powi exponent x)) * 2 powi exponent x
      \<le> (2 ^ 53 :: rat) * 2 powi exponent x"
    by (intro mult_right_mono) simp_all
  then show ?thesis by (simp add: round_double_pos[OF assms] power_int_add mult.commute)
qed

lemma round_double_lower:
  assumes "0 < x" "exponent x = ilog2 x - 52"
  shows "2 powi (exponent x + 52) \<le> round_double x"
proof -
  have "of_int (2 ^ 52) \<le> x / 2 powi exponent x"
    using mantissa_ge[OF assms] by simp
  then have "2 ^ 52 \<le> round_half_even (x / 2 powi exponent x)"
    by (rule round_half_even_ge_int)
  then have "(of_int (2 ^ 52) :: rat) \<le> of_int (round_half_even (x / 2 powi exponent x))"
    by (simp only: of_int_le_iff)
  then have "(2 ^ 52 :: rat) * 2 powi exponent x
      \<le> of_int (round_half_even (x / 2 powi exponent x)) * 2 powi exponent x"
    by (intro mult_right_mono) simp_all
  then show ?thesis by (simp add: round_double_pos[OF assms(1)] power_int_add mult.commute)
qed

lemma round_double_nonneg: "0 \<le> x \<Longrightarrow> 0 \<le> round_double x"
proof (cases "x = 0")
  case False
  assume "0 \<le> x"
  with False have x: "0 < x" by simp
  have "(of_int 0 :: rat) \<le> x / 2 powi exponent x" using x by simp
  then have "0 \<le> round_half_even (x / 2 powi exponent x)" by (rule round_half_even_ge_int)
  then show ?thesis by (simp add: round_double_pos[OF x])
qed simp

lemma round_double_mono_pos:
  assumes "0 < x" "x \<le> y"
  shows "round_double x \<le> round_double y"
proof -
  have y: "0 < y" using assms by simp
  have e: "exponent x \<le> exponent y"
    using ilog2_mono[OF assms] assms y by (simp add: exponent_def)
  show ?thesis
  proof (cases "exponent x = exponent y")
    case True
    have "x / 2 powi exponent y \<le> y / 2 powi exponent y"
      using assms(2) by (simp add: divide_right_mono)
    then have "round_half_even (x / 2 powi exponent y) \<le> round_half_even (y / 2 powi exponent y)"
      by (rule round_half_even_mono)
    then have "(of_int (round_half_even (x / 2 powi exponent y)) :: rat)
        \<le> of_int (round_half_even (y / 2 powi exponent y))"
      by (simp only: of_int_le_iff)
    then show ?thesis
      by (simp add: round_double_pos[OF assms(1)] round_double_pos[OF y] True mult_right_mono)
  next
    case False
    with e have lt: "exponent x < exponent y" by simp
    with exponent_ge(1)[of x] have "exponent y = ilog2 y - 52"
      using y by (simp add: exponent_def max_def split: if_splits)
    then have "2 powi (exponent y + 52) \<le> round_double y" by (rule round_double_lower[OF y])
    moreover have "round_double x \<le> 2 powi (exponent x + 53)" by (rule round_double_upper[OF assms(1)])
    moreover have "(2::rat) powi (exponent x + 53) \<le> 2 powi (exponent y + 52)"
    proof -
      have "exponent x + 53 \<le> exponent y + 52" using lt by simp
      then show ?thesis by (simp only: pow2_le_iff)
    qed
    ultimately show ?thesis by linarith
  qed
qed

lemma round_double_mono:
  assumes "x \<le> y"
  shows "round_double x \<le> round_double y"
proof -
  consider "0 < x" | "x \<le> 0" "0 \<le> y" | "y < 0" by linarith
  then show ?thesis
  proof cases
    case 1
    then show ?thesis using assms by (rule round_double_mono_pos)
  next
    case 2
    have "round_double x \<le> 0"
      using round_double_nonneg[of "- x"] 2(1) by (simp add: round_double_minus)
    moreover have "0 \<le> round_double y" using 2(2) by (rule round_double_nonneg)
    ultimately show ?thesis by simp
  next
    case 3
    have "round_double (- y) \<le> round_double (- x)"
      using 3 assms by (intro round_double_mono_pos) simp_all
    then show ?thesis by (simp add: round_double_minus)
  qed
qed

lemma round_double_exact:
  assumes "\<bar>x\<bar> / 2 powi exponent x = of_int n"
  shows "round_double x = x"
proof (cases "x = 0")
  case False
  have "sgn x * of_int (round_half_even (\<bar>x\<bar> / 2 powi exponent x)) * 2 powi exponent x
      = sgn x * (\<bar>x\<bar> / 2 powi exponent x) * 2 powi exponent x"
    by (simp add: assms)
  also have "\<dots> = sgn x * \<bar>x\<bar>" by simp
  also have "\<dots> = x" by (simp add: mult_sgn_abs)
  finally show ?thesis using False by (simp add: round_double_def)
qed simp

lemma exponent_int_le:
  assumes "\<bar>x\<bar> < 2 ^ 53" "x \<noteq> 0"
  shows "exponent x \<le> 0"
proof -
  have x: "0 < \<bar>x\<bar>" using assms(2) by simp
  have "2 powi ilog2 \<bar>x\<bar> \<le> \<bar>x\<bar>" by (rule ilog2_bounds(1)[OF x])
  also have "\<bar>x\<bar> < 2 powi 53" using assms(1) by simp
  finally have "ilog2 \<bar>x\<bar> < 53" by (simp only: pow2_less_iff)
  then show ?thesis by (simp add: exponent_def)
qed

lemma round_double_of_int:
  assumes "\<bar>n\<bar> \<le> 2 ^ 53"
  shows "round_double (of_int n) = of_int n"
proof (cases "\<bar>n\<bar> = 2 ^ 53")
  case True
  have a: "\<bar>of_int n :: rat\<bar> = 2 powi 53"
  proof -
    have "\<bar>of_int n :: rat\<bar> = of_int \<bar>n\<bar>" by simp
    also have "\<dots> = of_int (2 ^ 53)" by (simp only: True)
    finally show ?thesis by simp
  qed
  have "ilog2 \<bar>of_int n :: rat\<bar> = 53"
    by (rule ilog2_unique) (simp_all add: a)
  then have e: "exponent (of_int n :: rat) = 1" by (simp add: exponent_def)
  have "\<bar>of_int n :: rat\<bar> / 2 powi exponent (of_int n :: rat) = of_int (2 ^ 52)"
    by (simp add: e a)
  then show ?thesis by (rule round_double_exact)
next
  case False
  show ?thesis
  proof (cases "n = 0")
    case nz: False
    from False assms have "\<bar>n\<bar> < 2 ^ 53" by simp
    then have "(of_int \<bar>n\<bar> :: rat) < of_int (2 ^ 53)" by (simp only: of_int_less_iff)
    then have lt: "\<bar>of_int n :: rat\<bar> < 2 ^ 53" by simp
    have e: "exponent (of_int n :: rat) \<le> 0"
      by (rule exponent_int_le[OF lt]) (use nz in simp)
    define k where "k = nat (- exponent (of_int n :: rat))"
    have ek: "exponent (of_int n :: rat) = - int k" using e by (simp add: k_def)
    have "\<bar>of_int n :: rat\<bar> / 2 powi exponent (of_int n :: rat) = of_int (\<bar>n\<bar> * 2 ^ k)"
      by (simp add: ek power_int_minus field_simps)
    then show ?thesis by (rule round_double_exact)
  qed simp
qed

lemma round_double_le_int:
  assumes "x \<le> of_int n" "\<bar>n\<bar> \<le> 2 ^ 53"
  shows "round_double x \<le> of_int n"
  using round_double_mono[OF assms(1)] round_double_of_int[OF assms(2)] by simp

lemma round_double_ge_int:
  assumes "of_int n \<le> x" "\<bar>n\<bar> \<le> 2 ^ 53"
  shows "of_int n \<le> round_double x"
  using round_double_mono[OF assms(1)] round_double_of_int[OF assms(2)] by simp

lemma round_double_error_exponent:
  "\<bar>round_double x - x\<bar> \<le> 2 powi exponent x / 2"
proof (cases "x = 0")
  case False
  define e where "e = exponent x"
  define m where "m = round_half_even (\<bar>x\<bar> / 2 powi e)"
  have p: "(0::rat) < 2 powi e" by simp
  have "\<bar>of_int m - \<bar>x\<bar> / 2 powi e\<bar> \<le> 1/2" unfolding m_def by (rule round_half_even_err)
  then have "\<bar>of_int m - \<bar>x\<bar> / 2 powi e\<bar> * 2 powi e \<le> 1/2 * 2 powi e"
    by (rule mult_right_mono) simp
  also have "\<bar>of_int m - \<bar>x\<bar> / 2 powi e\<bar> * 2 powi e = \<bar>(of_int m - \<bar>x\<bar> / 2 powi e) * 2 powi e\<bar>"
    by (simp add: abs_mult)
  also have "(of_int m - \<bar>x\<bar> / 2 powi e) * 2 powi e = of_int m * 2 powi e - \<bar>x\<bar>"
    by (simp add: left_diff_distrib)
  finally have 1: "\<bar>of_int m * 2 powi e - \<bar>x\<bar>\<bar> \<le> 2 powi e / 2" by simp
  have "round_double x - x = sgn x * (of_int m * 2 powi e - \<bar>x\<bar>)"
    using False by (simp add: round_double_def m_def e_def right_diff_distrib mult_sgn_abs mult.assoc)
  then have "\<bar>round_double x - x\<bar> = \<bar>of_int m * 2 powi e - \<bar>x\<bar>\<bar>"
    using False by (simp add: abs_mult abs_sgn_eq)
  with 1 show ?thesis by (simp add: e_def)
qed simp

lemma pow2_exponent_le:
  assumes "x \<noteq> 0"
  shows "2 powi exponent x \<le> \<bar>x\<bar> / 2 ^ 52 + 1 / 2 ^ 1074"
proof -
  from assms have x: "0 < \<bar>x\<bar>" by simp
  show ?thesis
  proof (cases "exponent x = - 1074")
    case True
    then show ?thesis by (simp add: power_int_minus_divide)
  next
    case F: False
    then have e: "exponent x = ilog2 \<bar>x\<bar> - 52" by (simp add: exponent_def max_def split: if_splits)
    have "2 powi exponent x * 2 ^ 52 = (2::rat) powi (exponent x + 52)" by (simp add: power_int_add)
    also have "\<dots> \<le> \<bar>x\<bar>" using ilog2_bounds(1)[OF x] by (simp add: e)
    finally have "2 powi exponent x \<le> \<bar>x\<bar> / 2 ^ 52" by (simp add: pos_le_divide_eq)
    then show ?thesis by (simp add: add_increasing2)
  qed
qed

lemma round_double_error: "\<bar>round_double x - x\<bar> \<le> \<bar>x\<bar> / 2 ^ 53 + 1 / 2 ^ 1075"
proof (cases "x = 0")
  case False
  have "\<bar>round_double x - x\<bar> \<le> 2 powi exponent x / 2" by (rule round_double_error_exponent)
  also have "\<dots> \<le> (\<bar>x\<bar> / 2 ^ 52 + 1 / 2 ^ 1074) / 2"
    using pow2_exponent_le[OF False] by simp
  also have "\<dots> = \<bar>x\<bar> / 2 ^ 53 + 1 / 2 ^ 1075" by simp
  finally show ?thesis .
qed simp


lemma round_half_even_eqI:
  assumes "\<bar>y - of_int m\<bar> < 1/2 \<or> (\<bar>y - of_int m\<bar> = 1/2 \<and> even m)"
  shows "round_half_even y = m"
proof -
  have f: "of_int \<lfloor>y\<rfloor> \<le> y" "y < of_int \<lfloor>y\<rfloor> + 1" by linarith+
  from assms show ?thesis
  proof
    assume a: "\<bar>y - of_int m\<bar> < 1/2"
    then have "of_int m - 1/2 < y" "y < of_int m + 1/2" by linarith+
    have c: "(of_int (m - 1) :: rat) = of_int m - 1" "(of_int (m + 1) :: rat) = of_int m + 1"
      by simp_all
    have "of_int (m - 1) \<le> y" using a c by linarith
    then have 1: "m - 1 \<le> \<lfloor>y\<rfloor>" by (simp only: le_floor_iff)
    have "y < of_int (m + 1)" using a c by linarith
    then have 2: "\<lfloor>y\<rfloor> < m + 1" by (simp only: floor_less_iff)
    from 1 2 have "\<lfloor>y\<rfloor> = m \<or> \<lfloor>y\<rfloor> = m - 1" by linarith
    then show ?thesis
    proof
      assume fm: "\<lfloor>y\<rfloor> = m"
      have "y - of_int m < 1/2" using a by linarith
      then show ?thesis by (simp add: round_half_even_def Let_def fm)
    next
      assume fm: "\<lfloor>y\<rfloor> = m - 1"
      have "y - of_int (m - 1) = y - of_int m + 1" by simp
      moreover have "- (1/2) < y - of_int m" using a by linarith
      ultimately have "1/2 < y - of_int (m - 1)" by linarith
      then show ?thesis by (simp add: round_half_even_def Let_def fm del: of_int_diff)
    qed
  next
    assume a: "\<bar>y - of_int m\<bar> = 1/2 \<and> even m"
    then have "y = of_int m + 1/2 \<or> y = of_int m - 1/2" by linarith
    then show ?thesis
    proof
      assume y: "y = of_int m + 1/2"
      have "\<lfloor>y\<rfloor> = m" unfolding y by linarith
      with a y show ?thesis by (simp add: round_half_even_def Let_def)
    next
      assume y: "y = of_int m - 1/2"
      have fm: "\<lfloor>y\<rfloor> = m - 1" unfolding y by linarith
      have "y - of_int (m - 1) = 1/2" unfolding y by simp
      then show ?thesis using a by (simp add: round_half_even_def Let_def fm del: of_int_diff)
    qed
  qed
qed

lemma round_double_eqI:
  assumes "x = x'" "0 < x'" "2 powi k \<le> x'" "x' < 2 powi (k + 1)"
    and "e = max (k - 52) (- 1074)"
    and "\<bar>x' / 2 powi e - of_int m\<bar> < 1/2 \<or> (\<bar>x' / 2 powi e - of_int m\<bar> = 1/2 \<and> even m)"
    and "y = of_int m * 2 powi e"
  shows "round_double x = y"
proof -
  have "ilog2 \<bar>x'\<bar> = k" using assms(2,3,4) by (intro ilog2_unique) simp_all
  then have "exponent x' = e" by (simp add: exponent_def assms(5))
  moreover have "round_half_even (x' / 2 powi e) = m" by (rule round_half_even_eqI[OF assms(6)])
  ultimately show ?thesis using assms(1,2,7) by (simp add: round_double_def)
qed

section \<open>Evaluation of the sample runs\<close>

text \<open>Each rounding of the sample runs, with its exponent and significand.\<close>

lemma rd_1: "x = 3 / 10 \<Longrightarrow> round_double x = 5404319552844595 / 18014398509481984"
  by (rule round_double_eqI[where x' = "3 / 10" and k = "(- 2)" and e = "(- 54)" and m = "5404319552844595"]) simp_all

lemma rd_2: "x = 5404319552844595 / 18014398509481984 \<Longrightarrow> round_double x = 5404319552844595 / 18014398509481984"
  by (rule round_double_eqI[where x' = "5404319552844595 / 18014398509481984" and k = "(- 2)" and e = "(- 54)" and m = "5404319552844595"]) simp_all

lemma rd_3: "x = 135107988821114875 / 4503599627370496 \<Longrightarrow> round_double x = 30"
  by (rule round_double_eqI[where x' = "135107988821114875 / 4503599627370496" and k = "4" and e = "(- 48)" and m = "8444249301319680"]) simp_all

lemma mr_1: "x = 30 \<Longrightarrow> Math_round x = 30"
  by (simp add: Math_round_def floor_unique)

lemma rd_4: "x = 2 / 5 \<Longrightarrow> round_double x = 3602879701896397 / 9007199254740992"
  by (rule round_double_eqI[where x' = "2 / 5" and k = "(- 2)" and e = "(- 54)" and m = "7205759403792794"]) simp_all

lemma rd_5: "x = 19471113219505603967277331424215 / 162259276829213363391578010288128 \<Longrightarrow> round_double x = 1080863910568919 / 9007199254740992"
  by (rule round_double_eqI[where x' = "19471113219505603967277331424215 / 162259276829213363391578010288128" and k = "(- 4)" and e = "(- 56)" and m = "8646911284551352"]) simp_all

lemma rd_6: "x = 27021597764222975 / 2251799813685248 \<Longrightarrow> round_double x = 12"
  by (rule round_double_eqI[where x' = "27021597764222975 / 2251799813685248" and k = "3" and e = "(- 49)" and m = "6755399441055744"]) simp_all

lemma mr_2: "x = 12 \<Longrightarrow> Math_round x = 12"
  by (simp add: Math_round_def floor_unique)

lemma rd_7: "x = 3 / 25 \<Longrightarrow> round_double x = 1080863910568919 / 9007199254740992"
  by (rule round_double_eqI[where x' = "3 / 25" and k = "(- 4)" and e = "(- 56)" and m = "8646911284551352"]) simp_all

lemma rd_8: "x = 7926335344172073 / 9007199254740992 \<Longrightarrow> round_double x = 7926335344172073 / 9007199254740992"
  by (rule round_double_eqI[where x' = "7926335344172073 / 9007199254740992" and k = "(- 1)" and e = "(- 53)" and m = "7926335344172073"]) simp_all

lemma rd_9: "x = 198158383604301825 / 2251799813685248 \<Longrightarrow> round_double x = 88"
  by (rule round_double_eqI[where x' = "198158383604301825 / 2251799813685248" and k = "6" and e = "(- 46)" and m = "6192449487634432"]) simp_all

lemma mr_3: "x = 88 \<Longrightarrow> Math_round x = 88"
  by (simp add: Math_round_def floor_unique)

lemma rd_10: "x = 22 / 25 \<Longrightarrow> round_double x = 7926335344172073 / 9007199254740992"
  by (rule round_double_eqI[where x' = "22 / 25" and k = "(- 1)" and e = "(- 53)" and m = "7926335344172073"]) simp_all

lemma rd_11: "x = 7 / 20 \<Longrightarrow> round_double x = 3152519739159347 / 9007199254740992"
  by (rule round_double_eqI[where x' = "7 / 20" and k = "(- 2)" and e = "(- 54)" and m = "6305039478318694"]) simp_all

lemma rd_12: "x = 17037224067067401444747832679465 / 162259276829213363391578010288128 \<Longrightarrow> round_double x = 7566047373982433 / 72057594037927936"
  by (rule round_double_eqI[where x' = "17037224067067401444747832679465 / 162259276829213363391578010288128" and k = "(- 4)" and e = "(- 56)" and m = "7566047373982433"]) simp_all

lemma rd_13: "x = 189151184349560825 / 18014398509481984 \<Longrightarrow> round_double x = 21 / 2"
  by (rule round_double_eqI[where x' = "189151184349560825 / 18014398509481984" and k = "3" and e = "(- 49)" and m = "5910974510923776"]) simp_all

lemma mr_4: "x = 21 / 2 \<Longrightarrow> Math_round x = 11"
  by (simp add: Math_round_def floor_unique)

lemma rd_14: "x = 11 / 100 \<Longrightarrow> round_double x = 7926335344172073 / 72057594037927936"
  by (rule round_double_eqI[where x' = "11 / 100" and k = "(- 4)" and e = "(- 56)" and m = "7926335344172073"]) simp_all

lemma rd_15: "x = 55484347409204511 / 72057594037927936 \<Longrightarrow> round_double x = 1733885856537641 / 2251799813685248"
  by (rule round_double_eqI[where x' = "55484347409204511 / 72057594037927936" and k = "(- 1)" and e = "(- 53)" and m = "6935543426150564"]) simp_all

lemma rd_16: "x = 43347146413441025 / 562949953421312 \<Longrightarrow> round_double x = 77"
  by (rule round_double_eqI[where x' = "43347146413441025 / 562949953421312" and k = "6" and e = "(- 46)" and m = "5418393301680128"]) simp_all

lemma mr_5: "x = 77 \<Longrightarrow> Math_round x = 77"
  by (simp add: Math_round_def floor_unique)

lemma rd_17: "x = 77 / 100 \<Longrightarrow> round_double x = 1733885856537641 / 2251799813685248"
  by (rule round_double_eqI[where x' = "77 / 100" and k = "(- 1)" and e = "(- 53)" and m = "6935543426150564"]) simp_all

lemma rd_18: "x = 1 / 4 \<Longrightarrow> round_double x = 1 / 4"
  by (rule round_double_eqI[where x' = "1 / 4" and k = "(- 2)" and e = "(- 54)" and m = "4503599627370496"]) simp_all

lemma rd_19: "x = 5404319552844595 / 72057594037927936 \<Longrightarrow> round_double x = 5404319552844595 / 72057594037927936"
  by (rule round_double_eqI[where x' = "5404319552844595 / 72057594037927936" and k = "(- 4)" and e = "(- 56)" and m = "5404319552844595"]) simp_all

lemma rd_20: "x = 135107988821114875 / 18014398509481984 \<Longrightarrow> round_double x = 15 / 2"
  by (rule round_double_eqI[where x' = "135107988821114875 / 18014398509481984" and k = "2" and e = "(- 50)" and m = "8444249301319680"]) simp_all

lemma mr_6: "x = 15 / 2 \<Longrightarrow> Math_round x = 8"
  by (simp add: Math_round_def floor_unique)

lemma rd_21: "x = 2 / 25 \<Longrightarrow> round_double x = 5764607523034235 / 72057594037927936"
  by (rule round_double_eqI[where x' = "2 / 25" and k = "(- 4)" and e = "(- 56)" and m = "5764607523034235"]) simp_all

lemma rd_22: "x = 49719739886170277 / 72057594037927936 \<Longrightarrow> round_double x = 6214967485771285 / 9007199254740992"
  by (rule round_double_eqI[where x' = "49719739886170277 / 72057594037927936" and k = "(- 1)" and e = "(- 53)" and m = "6214967485771285"]) simp_all

lemma rd_23: "x = 155374187144282125 / 2251799813685248 \<Longrightarrow> round_double x = 69"
  by (rule round_double_eqI[where x' = "155374187144282125 / 2251799813685248" and k = "6" and e = "(- 46)" and m = "4855443348258816"]) simp_all

lemma mr_7: "x = 69 \<Longrightarrow> Math_round x = 69"
  by (simp add: Math_round_def floor_unique)

lemma rd_24: "x = 69 / 100 \<Longrightarrow> round_double x = 1553741871442821 / 2251799813685248"
  by (rule round_double_eqI[where x' = "69 / 100" and k = "(- 1)" and e = "(- 53)" and m = "6214967485771284"]) simp_all

lemma rd_25: "x = 698057942242427 / 2251799813685248 \<Longrightarrow> round_double x = 698057942242427 / 2251799813685248"
  by (rule round_double_eqI[where x' = "698057942242427 / 2251799813685248" and k = "(- 2)" and e = "(- 54)" and m = "5584463537939416"]) simp_all

lemma rd_26: "x = 29206669829258403248756220714025 / 324518553658426726783156020576256 \<Longrightarrow> round_double x = 3242591731706757 / 36028797018963968"
  by (rule round_double_eqI[where x' = "29206669829258403248756220714025 / 324518553658426726783156020576256" and k = "(- 4)" and e = "(- 56)" and m = "6485183463413514"]) simp_all

lemma rd_27: "x = 81064793292668925 / 9007199254740992 \<Longrightarrow> round_double x = 9"
  by (rule round_double_eqI[where x' = "81064793292668925 / 9007199254740992" and k = "3" and e = "(- 49)" and m = "5066549580791808"]) simp_all

lemma mr_8: "x = 9 \<Longrightarrow> Math_round x = 9"
  by (simp add: Math_round_def floor_unique)

lemma rd_28: "x = 9 / 100 \<Longrightarrow> round_double x = 3242591731706757 / 36028797018963968"
  by (rule round_double_eqI[where x' = "9 / 100" and k = "(- 4)" and e = "(- 56)" and m = "6485183463413514"]) simp_all

lemma rd_29: "x = 32786205287257211 / 36028797018963968 \<Longrightarrow> round_double x = 8196551321814303 / 9007199254740992"
  by (rule round_double_eqI[where x' = "32786205287257211 / 36028797018963968" and k = "(- 1)" and e = "(- 53)" and m = "8196551321814303"]) simp_all

lemma rd_30: "x = 204913783045357575 / 2251799813685248 \<Longrightarrow> round_double x = 91"
  by (rule round_double_eqI[where x' = "204913783045357575 / 2251799813685248" and k = "6" and e = "(- 46)" and m = "6403555720167424"]) simp_all

lemma mr_9: "x = 91 \<Longrightarrow> Math_round x = 91"
  by (simp add: Math_round_def floor_unique)

lemma rd_31: "x = 91 / 100 \<Longrightarrow> round_double x = 8196551321814303 / 9007199254740992"
  by (rule round_double_eqI[where x' = "91 / 100" and k = "(- 1)" and e = "(- 53)" and m = "8196551321814303"]) simp_all

lemma rd_32: "x = 1 / 5 \<Longrightarrow> round_double x = 3602879701896397 / 18014398509481984"
  by (rule round_double_eqI[where x' = "1 / 5" and k = "(- 3)" and e = "(- 55)" and m = "7205759403792794"]) simp_all

lemma rd_33: "x = 19471113219505603967277331424215 / 324518553658426726783156020576256 \<Longrightarrow> round_double x = 1080863910568919 / 18014398509481984"
  by (rule round_double_eqI[where x' = "19471113219505603967277331424215 / 324518553658426726783156020576256" and k = "(- 5)" and e = "(- 57)" and m = "8646911284551352"]) simp_all

lemma rd_34: "x = 27021597764222975 / 4503599627370496 \<Longrightarrow> round_double x = 6"
  by (rule round_double_eqI[where x' = "27021597764222975 / 4503599627370496" and k = "2" and e = "(- 50)" and m = "6755399441055744"]) simp_all

lemma mr_10: "x = 6 \<Longrightarrow> Math_round x = 6"
  by (simp add: Math_round_def floor_unique)

lemma rd_35: "x = 3 / 50 \<Longrightarrow> round_double x = 1080863910568919 / 18014398509481984"
  by (rule round_double_eqI[where x' = "3 / 50" and k = "(- 5)" and e = "(- 57)" and m = "8646911284551352"]) simp_all

lemma rd_36: "x = 15312238733059687 / 18014398509481984 \<Longrightarrow> round_double x = 1914029841632461 / 2251799813685248"
  by (rule round_double_eqI[where x' = "15312238733059687 / 18014398509481984" and k = "(- 1)" and e = "(- 53)" and m = "7656119366529844"]) simp_all

lemma rd_37: "x = 47850746040811525 / 562949953421312 \<Longrightarrow> round_double x = 5981343255101441 / 70368744177664"
  by (rule round_double_eqI[where x' = "47850746040811525 / 562949953421312" and k = "6" and e = "(- 46)" and m = "5981343255101441"]) simp_all

lemma mr_11: "x = 5981343255101441 / 70368744177664 \<Longrightarrow> Math_round x = 85"
  by (simp add: Math_round_def floor_unique)

lemma rd_38: "x = 17 / 20 \<Longrightarrow> round_double x = 7656119366529843 / 9007199254740992"
  by (rule round_double_eqI[where x' = "17 / 20" and k = "(- 1)" and e = "(- 53)" and m = "7656119366529843"]) simp_all

lemma rd_39: "x = 55484347409204509 / 72057594037927936 \<Longrightarrow> round_double x = 1733885856537641 / 2251799813685248"
  by (rule round_double_eqI[where x' = "55484347409204509 / 72057594037927936" and k = "(- 1)" and e = "(- 53)" and m = "6935543426150564"]) simp_all









lemma rd_46: "x = 4 \<Longrightarrow> round_double x = 4"
  by (rule round_double_eqI[where x' = "4" and k = "2" and e = "(- 50)" and m = "4503599627370496"]) simp_all

lemma rd_47: "x = 5404319552844595 / 4503599627370496 \<Longrightarrow> round_double x = 5404319552844595 / 4503599627370496"
  by (rule round_double_eqI[where x' = "5404319552844595 / 4503599627370496" and k = "0" and e = "(- 52)" and m = "5404319552844595"]) simp_all

lemma rd_48: "x = 135107988821114875 / 1125899906842624 \<Longrightarrow> round_double x = 120"
  by (rule round_double_eqI[where x' = "135107988821114875 / 1125899906842624" and k = "6" and e = "(- 46)" and m = "8444249301319680"]) simp_all

lemma mr_14: "x = 120 \<Longrightarrow> Math_round x = 120"
  by (simp add: Math_round_def floor_unique)

lemma rd_49: "x = 6 / 5 \<Longrightarrow> round_double x = 5404319552844595 / 4503599627370496"
  by (rule round_double_eqI[where x' = "6 / 5" and k = "0" and e = "(- 52)" and m = "5404319552844595"]) simp_all


lemma rd_51: "x = 3 / 500 \<Longrightarrow> round_double x = 3458764513820541 / 576460752303423488"
  by (rule round_double_eqI[where x' = "3 / 500" and k = "(- 8)" and e = "(- 60)" and m = "6917529027641082"]) simp_all

lemma rd_52: "x = 18692268690725379160067891825895 / 10384593717069655257060992658440192 \<Longrightarrow> round_double x = 4150517416584649 / 2305843009213693952"
  by (rule round_double_eqI[where x' = "18692268690725379160067891825895 / 10384593717069655257060992658440192" and k = "(- 10)" and e = "(- 62)" and m = "8301034833169298"]) simp_all

lemma rd_53: "x = 103762935414616225 / 576460752303423488 \<Longrightarrow> round_double x = 3242591731706757 / 18014398509481984"
  by (rule round_double_eqI[where x' = "103762935414616225 / 576460752303423488" and k = "(- 3)" and e = "(- 55)" and m = "6485183463413514"]) simp_all

lemma mr_15: "x = 3242591731706757 / 18014398509481984 \<Longrightarrow> Math_round x = 0"
  by (simp add: Math_round_def floor_unique)

lemma mr_16: "x = 0 \<Longrightarrow> Math_round x = 0"
  by (simp add: Math_round_def floor_unique)

lemma rd_54: "x = 3458764513820541 / 576460752303423488 \<Longrightarrow> round_double x = 3458764513820541 / 576460752303423488"
  by (rule round_double_eqI[where x' = "3458764513820541 / 576460752303423488" and k = "(- 8)" and e = "(- 60)" and m = "6917529027641082"]) simp_all

lemma rd_55: "x = 86469112845513525 / 144115188075855872 \<Longrightarrow> round_double x = 5404319552844595 / 9007199254740992"
  by (rule round_double_eqI[where x' = "86469112845513525 / 144115188075855872" and k = "(- 1)" and e = "(- 53)" and m = "5404319552844595"]) simp_all

lemma mr_17: "x = 5404319552844595 / 9007199254740992 \<Longrightarrow> Math_round x = 1"
  by (simp add: Math_round_def floor_unique)

lemma rd_56: "x = 1 / 100 \<Longrightarrow> round_double x = 5764607523034235 / 576460752303423488"
  by (rule round_double_eqI[where x' = "1 / 100" and k = "(- 7)" and e = "(- 59)" and m = "5764607523034235"]) simp_all

lemma rd_57: "x = 5764607523034235 / 576460752303423488 \<Longrightarrow> round_double x = 5764607523034235 / 576460752303423488"
  by (rule round_double_eqI[where x' = "5764607523034235 / 576460752303423488" and k = "(- 7)" and e = "(- 59)" and m = "5764607523034235"]) simp_all

lemma rd_58: "x = 144115188075855875 / 144115188075855872 \<Longrightarrow> round_double x = 1"
  by (rule round_double_eqI[where x' = "144115188075855875 / 144115188075855872" and k = "0" and e = "(- 52)" and m = "4503599627370496"]) simp_all

lemma mr_18: "x = 1 \<Longrightarrow> Math_round x = 1"
  by (simp add: Math_round_def floor_unique)

lemma rd_59: "x = 1152921504606847 / 288230376151711744 \<Longrightarrow> round_double x = 1152921504606847 / 288230376151711744"
  by (rule round_double_eqI[where x' = "1152921504606847 / 288230376151711744" and k = "(- 8)" and e = "(- 60)" and m = "4611686018427388"]) simp_all

lemma rd_60: "x = - (1152921504606847 / 288230376151711744) \<Longrightarrow> round_double x = - (1152921504606847 / 288230376151711744)"
  using rd_59[of "1152921504606847 / 288230376151711744"] by (simp add: round_double_minus)

lemma rd_61: "x = 21 / 200 \<Longrightarrow> round_double x = 7566047373982433 / 72057594037927936"
  by (rule round_double_eqI[where x' = "21 / 200" and k = "(- 4)" and e = "(- 56)" and m = "7566047373982433"]) simp_all

lemma rd_62: "x = 3 / 40 \<Longrightarrow> round_double x = 5404319552844595 / 72057594037927936"
  by (rule round_double_eqI[where x' = "3 / 40" and k = "(- 4)" and e = "(- 56)" and m = "5404319552844595"]) simp_all

lemma rd_63: "x = 7 / 10 \<Longrightarrow> round_double x = 3152519739159347 / 4503599627370496"
  by (rule round_double_eqI[where x' = "7 / 10" and k = "(- 1)" and e = "(- 53)" and m = "6305039478318694"]) simp_all

lemma pool_1: "totalAgentBudget 1 = cents 30"
  by (simp add: totalAgentBudget_def payment_def deduct_def js_mul_def js_div_def js_sub_def AGENT_BUDGET_RATIO_def cents_def sub_cent_budget_def
      mr_1 rd_1 rd_2 rd_3)

lemma payment_40_of_c30: "payment 40 (cents 30) = cents 12"
  by (simp add: totalAgentBudget_def payment_def deduct_def js_mul_def js_div_def js_sub_def AGENT_BUDGET_RATIO_def cents_def sub_cent_budget_def
      mr_2 rd_1 rd_4 rd_5 rd_6 rd_7)

lemma not_less_1_c12: "\<not> 1 < (cents 12)"
  by (simp add: totalAgentBudget_def payment_def deduct_def js_mul_def js_div_def js_sub_def AGENT_BUDGET_RATIO_def cents_def sub_cent_budget_def
      rd_7)

lemma deduct_1_c12: "deduct 1 (cents 12) = cents 88"
  by (simp add: totalAgentBudget_def payment_def deduct_def js_mul_def js_div_def js_sub_def AGENT_BUDGET_RATIO_def cents_def sub_cent_budget_def
      mr_3 rd_7 rd_8 rd_9 rd_10)

lemma payment_35_of_c30: "payment 35 (cents 30) = cents 11"
  by (simp add: totalAgentBudget_def payment_def deduct_def js_mul_def js_div_def js_sub_def AGENT_BUDGET_RATIO_def cents_def sub_cent_budget_def
      mr_4 rd_1 rd_11 rd_12 rd_13 rd_14)

lemma not_less_c88_c11: "\<not> (cents 88) < (cents 11)"
  by (simp add: totalAgentBudget_def payment_def deduct_def js_mul_def js_div_def js_sub_def AGENT_BUDGET_RATIO_def cents_def sub_cent_budget_def
      rd_10 rd_14)

lemma deduct_c88_c11: "deduct (cents 88) (cents 11) = cents 77"
  by (simp add: totalAgentBudget_def payment_def deduct_def js_mul_def js_div_def js_sub_def AGENT_BUDGET_RATIO_def cents_def sub_cent_budget_def
      mr_5 rd_10 rd_14 rd_15 rd_16 rd_17)

lemma payment_25_of_c30: "payment 25 (cents 30) = cents 8"
  by (simp add: totalAgentBudget_def payment_def deduct_def js_mul_def js_div_def js_sub_def AGENT_BUDGET_RATIO_def cents_def sub_cent_budget_def
      mr_6 rd_1 rd_18 rd_19 rd_20 rd_21)

lemma not_less_c77_c8: "\<not> (cents 77) < (cents 8)"
  by (simp add: totalAgentBudget_def payment_def deduct_def js_mul_def js_div_def js_sub_def AGENT_BUDGET_RATIO_def cents_def sub_cent_budget_def
      rd_17 rd_21)

lemma deduct_c77_c8: "deduct (cents 77) (cents 8) = cents 69"
  by (simp add: totalAgentBudget_def payment_def deduct_def js_mul_def js_div_def js_sub_def AGENT_BUDGET_RATIO_def cents_def sub_cent_budget_def
      mr_7 rd_17 rd_21 rd_22 rd_23 rd_24)

lemma spent_1_c69: "js_sub 1 (cents 69) = 698057942242427 / 2251799813685248"
  by (simp add: totalAgentBudget_def payment_def deduct_def js_mul_def js_div_def js_sub_def AGENT_BUDGET_RATIO_def cents_def sub_cent_budget_def
      rd_24 rd_25)

lemma payment_30_of_c30: "payment 30 (cents 30) = cents 9"
  by (simp add: totalAgentBudget_def payment_def deduct_def js_mul_def js_div_def js_sub_def AGENT_BUDGET_RATIO_def cents_def sub_cent_budget_def
      mr_8 rd_1 rd_26 rd_27 rd_28)

lemma deduct_1_c9: "deduct 1 (cents 9) = cents 91"
  by (simp add: totalAgentBudget_def payment_def deduct_def js_mul_def js_div_def js_sub_def AGENT_BUDGET_RATIO_def cents_def sub_cent_budget_def
      mr_9 rd_28 rd_29 rd_30 rd_31)

lemma payment_20_of_c30: "payment 20 (cents 30) = cents 6"
  by (simp add: totalAgentBudget_def payment_def deduct_def js_mul_def js_div_def js_sub_def AGENT_BUDGET_RATIO_def cents_def sub_cent_budget_def
      mr_10 rd_1 rd_32 rd_33 rd_34 rd_35)

lemma deduct_c91_c6: "deduct (cents 91) (cents 6) = cents 85"
  by (simp add: totalAgentBudget_def payment_def deduct_def js_mul_def js_div_def js_sub_def AGENT_BUDGET_RATIO_def cents_def sub_cent_budget_def
      mr_11 rd_31 rd_35 rd_36 rd_37 rd_38)

lemma deduct_c85_c8: "deduct (cents 85) (cents 8) = cents 77"
  by (simp add: totalAgentBudget_def payment_def deduct_def js_mul_def js_div_def js_sub_def AGENT_BUDGET_RATIO_def cents_def sub_cent_budget_def
      mr_5 rd_16 rd_17 rd_21 rd_38 rd_39)





lemma payment_400_of_c30: "payment 400 (cents 30) = cents 120"
  by (simp add: totalAgentBudget_def payment_def deduct_def js_mul_def js_div_def js_sub_def AGENT_BUDGET_RATIO_def cents_def sub_cent_budget_def
      mr_14 rd_1 rd_46 rd_47 rd_48 rd_49)

lemma less_1_c120: "1 < (cents 120)"
  by (simp add: totalAgentBudget_def payment_def deduct_def js_mul_def js_div_def js_sub_def AGENT_BUDGET_RATIO_def cents_def sub_cent_budget_def
      rd_49)

lemma spent_1_1: "js_sub 1 1 = 0"
  by (simp add: totalAgentBudget_def payment_def deduct_def js_mul_def js_div_def js_sub_def AGENT_BUDGET_RATIO_def cents_def sub_cent_budget_def
      )


lemma pool_sub: "totalAgentBudget sub_cent_budget = cents 0"
  by (simp add: totalAgentBudget_def payment_def deduct_def js_mul_def js_div_def js_sub_def AGENT_BUDGET_RATIO_def cents_def sub_cent_budget_def
      mr_15 rd_1 rd_51 rd_52 rd_53)

lemma payment_30_of_c0: "payment 30 (cents 0) = cents 0"
  by (simp add: totalAgentBudget_def payment_def deduct_def js_mul_def js_div_def js_sub_def AGENT_BUDGET_RATIO_def cents_def sub_cent_budget_def
      mr_16 rd_1)

lemma deduct_sub_c0: "deduct sub_cent_budget (cents 0) = cents 1"
  by (simp add: totalAgentBudget_def payment_def deduct_def js_mul_def js_div_def js_sub_def AGENT_BUDGET_RATIO_def cents_def sub_cent_budget_def
      mr_17 rd_51 rd_54 rd_55 rd_56)

lemma payment_20_of_c0: "payment 20 (cents 0) = cents 0"
  by (simp add: totalAgentBudget_def payment_def deduct_def js_mul_def js_div_def js_sub_def AGENT_BUDGET_RATIO_def cents_def sub_cent_budget_def
      mr_16 rd_32)

lemma deduct_c1_c0: "deduct (cents 1) (cents 0) = cents 1"
  by (simp add: totalAgentBudget_def payment_def deduct_def js_mul_def js_div_def js_sub_def AGENT_BUDGET_RATIO_def cents_def sub_cent_budget_def
      mr_18 rd_56 rd_57 rd_58)

lemma payment_25_of_c0: "payment 25 (cents 0) = cents 0"
  by (simp add: totalAgentBudget_def payment_def deduct_def js_mul_def js_div_def js_sub_def AGENT_BUDGET_RATIO_def cents_def sub_cent_budget_def
      mr_16 rd_18)

lemma spent_sub_c1: "js_sub sub_cent_budget (cents 1) = - (1152921504606847 / 288230376151711744)"
  by (simp add: totalAgentBudget_def payment_def deduct_def js_mul_def js_div_def js_sub_def AGENT_BUDGET_RATIO_def cents_def sub_cent_budget_def
      rd_51 rd_56 rd_59 rd_60)

lemma less_sub_c1: "sub_cent_budget < (cents 1)"
  by (simp add: totalAgentBudget_def payment_def deduct_def js_mul_def js_div_def js_sub_def AGENT_BUDGET_RATIO_def cents_def sub_cent_budget_def
      rd_51 rd_56)

lemma differ_c11_0105: "(cents 11) \<noteq> round_double (21 / 200)"
  by (simp add: totalAgentBudget_def payment_def deduct_def js_mul_def js_div_def js_sub_def AGENT_BUDGET_RATIO_def cents_def sub_cent_budget_def
      rd_14 rd_61)

lemma differ_c8_0075: "(cents 8) \<noteq> round_double (3 / 40)"
  by (simp add: totalAgentBudget_def payment_def deduct_def js_mul_def js_div_def js_sub_def AGENT_BUDGET_RATIO_def cents_def sub_cent_budget_def
      rd_21 rd_62)

lemma differ_c69_07: "(cents 69) \<noteq> round_double (7 / 10)"
  by (simp add: totalAgentBudget_def payment_def deduct_def js_mul_def js_div_def js_sub_def AGENT_BUDGET_RATIO_def cents_def sub_cent_budget_def
      rd_24 rd_63)



lemma cents_40_value: "cents 40 = 3602879701896397 / 9007199254740992"
  by (simp add: totalAgentBudget_def payment_def deduct_def js_mul_def js_div_def js_sub_def AGENT_BUDGET_RATIO_def cents_def sub_cent_budget_def
      rd_4)


lemma cents_30_value: "cents 30 = 5404319552844595 / 18014398509481984"
  by (simp add: totalAgentBudget_def payment_def deduct_def js_mul_def js_div_def js_sub_def AGENT_BUDGET_RATIO_def cents_def sub_cent_budget_def
      rd_1)

lemma positive_sub: "0 < sub_cent_budget"
  by (simp add: totalAgentBudget_def payment_def deduct_def js_mul_def js_div_def js_sub_def AGENT_BUDGET_RATIO_def cents_def sub_cent_budget_def
      rd_51)


section \<open>The sample runs\<close>

lemmas main_arith =
  pool_1 payment_40_of_c30 payment_35_of_c30 payment_25_of_c30 not_less_1_c12 not_less_c88_c11
  not_less_c77_c8 deduct_1_c12 deduct_c88_c11 deduct_c77_c8 spent_1_c69

lemmas codebase_arith =
  pool_1 payment_30_of_c30 payment_20_of_c30 payment_25_of_c30 deduct_1_c9 deduct_c91_c6
  deduct_c85_c8 deduct_c77_c8 spent_1_c69

lemma run_main_ok:
  "runMainAgent main_ok ''demo'' 1 =
     ([Step_start ''Research Agent'' ''Research and find relevant information for: demo'' 40 (cents 12),
       Step_complete ''Research Agent'' ''Research and find relevant information for: demo''
         (cents 12) ''tx-pay'' (cents 88),
       Step_start ''Analysis Agent'' ''Analyze and evaluate the findings for: demo'' 35 (cents 11),
       Step_complete ''Analysis Agent'' ''Analyze and evaluate the findings for: demo''
         (cents 11) ''tx-pay'' (cents 77),
       Step_start ''Writer Agent'' ''Write a clear final report for: demo'' 25 (cents 8),
       Step_complete ''Writer Agent'' ''Write a clear final report for: demo''
         (cents 8) ''tx-pay'' (cents 69),
       Report ''report'', Refund (cents 69) ''tx-refund''],
      Inr \<lparr>returned_results =
             [(''Research Agent'', ''Research and find relevant information for: demo'', ''done''),
              (''Analysis Agent'', ''Analyze and evaluate the findings for: demo'', ''done''),
              (''Writer Agent'', ''Write a clear final report for: demo'', ''done'')],
           spent = 698057942242427 / 2251799813685248, refunded = cents 69,
           finalReport = ''report'', refundTxId = ''tx-refund''\<rparr>)"
  by (simp add: runMainAgent_def main_ok_def finish_main_def default_steps_def main_arith Let_def)

lemma run_main_first_worker_fails:
  "runMainAgent (main_ok\<lparr>runSubAgent := (\<lambda>k. if k = 0 then Inl (Error ''overloaded'') else Inr ''done'')\<rparr>)
       ''demo'' 1 =
     ([Step_start ''Research Agent'' ''Research and find relevant information for: demo'' 40 (cents 12)],
      Inl (Error ''overloaded''))"
  by (simp add: runMainAgent_def main_ok_def finish_main_def default_steps_def main_arith Let_def)


lemma run_main_empty_plan:
  "runMainAgent (main_ok\<lparr>planResponse := Inr (Parsed (Steps []))\<rparr>) ''demo'' 1 =
     ([Report ''report'', Refund 1 ''tx-refund''],
      Inr \<lparr>returned_results = [], spent = 0, refunded = 1,
           finalReport = ''report'', refundTxId = ''tx-refund''\<rparr>)"
  by (simp add: runMainAgent_def main_ok_def finish_main_def spent_1_1 Let_def)


lemma run_main_fourfold_allocation:
  "runMainAgent
       (main_ok\<lparr>planResponse :=
          Inr (Parsed (Steps [\<lparr>agent = ''Research Agent'', task = ''survey'', allocation = 400\<rparr>,
                              \<lparr>agent = ''Writer Agent'', task = ''write'', allocation = 10\<rparr>]))\<rparr>)
       ''demo'' 1 =
     ([Report ''report'', Refund 1 ''tx-refund''],
      Inr \<lparr>returned_results = [], spent = 0, refunded = 1,
           finalReport = ''report'', refundTxId = ''tx-refund''\<rparr>)"
  by (simp add: runMainAgent_def main_ok_def finish_main_def pool_1 payment_400_of_c30
      less_1_c120 spent_1_1 Let_def)

lemma run_codebase_ok:
  "runCodebaseAnalysis codebase_ok 1 =
     ([Agent_start ''Code Reader Agent'' 30 (cents 9),
       Agent_complete ''Code Reader Agent'' ''codeReader'' ''architecture'' ''tx-pay'' (cents 9) (cents 91),
       Agent_start ''Simplifier Agent'' 20 (cents 6),
       Agent_start ''Analogy Agent'' 25 (cents 8),
       Agent_start ''Insight Agent'' 25 (cents 8),
       Agent_complete ''Simplifier Agent'' ''simplifier'' ''glossary'' ''tx-pay'' (cents 6) (cents 85),
       Agent_complete ''Analogy Agent'' ''analogy'' ''slides'' ''tx-pay'' (cents 8) (cents 77),
       Agent_complete ''Insight Agent'' ''insight'' ''red flags'' ''tx-pay'' (cents 8) (cents 69),
       Analysis_complete
         [(''codeReader'', ''architecture''), (''simplifier'', ''glossary''),
          (''analogy'', ''slides''), (''insight'', ''red flags'')],
       Refund (cents 69) ''tx-refund''],
      Inr \<lparr>returned_results =
             [(''codeReader'', ''architecture''), (''simplifier'', ''glossary''),
              (''analogy'', ''slides''), (''insight'', ''red flags'')],
           spent = 698057942242427 / 2251799813685248, refunded = cents 69\<rparr>)"
  by (simp add: runCodebaseAnalysis_def codebase_ok_def phase1_def run_phase2_def phase2_def
      finish_codebase_def pay_def codebase_arith Let_def)

lemma run_codebase_reader_fails:
  "runCodebaseAnalysis (codebase_ok\<lparr>runCodeReaderAgent := Inl (Error ''overloaded'')\<rparr>) 1 =
     ([Agent_start ''Code Reader Agent'' 30 (cents 9),
       Agent_error ''Code Reader Agent'' ''overloaded'',
       Agent_complete ''Code Reader Agent'' ''codeReader'' codeReader_fallback ''tx-pay''
         (cents 9) (cents 91),
       Agent_start ''Simplifier Agent'' 20 (cents 6),
       Agent_start ''Analogy Agent'' 25 (cents 8),
       Agent_start ''Insight Agent'' 25 (cents 8),
       Agent_complete ''Simplifier Agent'' ''simplifier'' ''glossary'' ''tx-pay'' (cents 6) (cents 85),
       Agent_complete ''Analogy Agent'' ''analogy'' ''slides'' ''tx-pay'' (cents 8) (cents 77),
       Agent_complete ''Insight Agent'' ''insight'' ''red flags'' ''tx-pay'' (cents 8) (cents 69),
       Analysis_complete
         [(''codeReader'', codeReader_fallback), (''simplifier'', ''glossary''),
          (''analogy'', ''slides''), (''insight'', ''red flags'')],
       Refund (cents 69) ''tx-refund''],
      Inr \<lparr>returned_results =
             [(''codeReader'', codeReader_fallback), (''simplifier'', ''glossary''),
              (''analogy'', ''slides''), (''insight'', ''red flags'')],
           spent = 698057942242427 / 2251799813685248, refunded = cents 69\<rparr>)"
  by (simp add: runCodebaseAnalysis_def codebase_ok_def phase1_def run_phase2_def phase2_def
      finish_codebase_def pay_def codebase_arith Let_def)


lemma run_codebase_sub_cent:
  "runCodebaseAnalysis codebase_ok sub_cent_budget =
     ([Agent_start ''Code Reader Agent'' 30 (cents 0),
       Agent_complete ''Code Reader Agent'' ''codeReader'' ''architecture'' ''tx-pay'' (cents 0) (cents 1),
       Agent_start ''Simplifier Agent'' 20 (cents 0),
       Agent_start ''Analogy Agent'' 25 (cents 0),
       Agent_start ''Insight Agent'' 25 (cents 0),
       Agent_complete ''Simplifier Agent'' ''simplifier'' ''glossary'' ''tx-pay'' (cents 0) (cents 1),
       Agent_complete ''Analogy Agent'' ''analogy'' ''slides'' ''tx-pay'' (cents 0) (cents 1),
       Agent_complete ''Insight Agent'' ''insight'' ''red flags'' ''tx-pay'' (cents 0) (cents 1),
       Analysis_complete
         [(''codeReader'', ''architecture''), (''simplifier'', ''glossary''),
          (''analogy'', ''slides''), (''insight'', ''red flags'')],
       Refund (cents 1) ''tx-refund''],
      Inr \<lparr>returned_results =
             [(''codeReader'', ''architecture''), (''simplifier'', ''glossary''),
              (''analogy'', ''slides''), (''insight'', ''red flags'')],
           spent = - (1152921504606847 / 288230376151711744), refunded = cents 1\<rparr>)"
  by (simp add: runCodebaseAnalysis_def codebase_ok_def phase1_def run_phase2_def phase2_def
      finish_codebase_def pay_def pool_sub payment_30_of_c0 payment_20_of_c0 payment_25_of_c0
      deduct_sub_c0 deduct_c1_c0 spent_sub_c1 Let_def)

section \<open>Structure of the runs\<close>





section \<open>Conservation of the budget\<close>



section \<open>The plan\<close>

text \<open>
  C2, as stated, fails: the parse is not followed by any validation. A reply that parses
  to an empty list of steps is the plan of the run; no default plan replaces it, no step
  is dispatched and the allocations sum to 0.
\<close>

theorem empty_plan_is_used:
  "parse_steps ''demo'' (Parsed (Steps [])) = Steps [] \<and>
   Steps [] \<noteq> Steps (default_steps ''demo'') \<and>
   sum_list (map allocation ([] :: step list)) \<noteq> 100 \<and>
   runMainAgent (main_ok\<lparr>planResponse := Inr (Parsed (Steps []))\<rparr>) ''demo'' 1 =
     ([Report ''report'', Refund 1 ''tx-refund''],
      Inr \<lparr>returned_results = [], spent = 0, refunded = 1,
           finalReport = ''report'', refundTxId = ''tx-refund''\<rparr>)"
  by (simp add: run_main_empty_plan default_steps_def)

text \<open>
  C2, amended. When the reply of the planner has no text, no brace-delimited match or a
  match that is not valid JSON, \<open>runMainAgent\<close> takes the fixed plan of three steps built
  from the task string, with allocations 40, 35 and 25, which sum to 100, and the run
  is the run of that plan. A reply that parses to a list of steps is used as it is.
\<close>

theorem unparsable_plan_falls_back:
  "parse_steps task_text No_text = Steps (default_steps task_text) \<and>
   parse_steps task_text No_match = Steps (default_steps task_text) \<and>
   parse_steps task_text Invalid_JSON = Steps (default_steps task_text) \<and>
   map allocation (default_steps task_text) = [40, 35, 25] \<and>
   sum_list (map allocation (default_steps task_text)) = 100 \<and>
   parse_steps task_text (Parsed (Steps xs)) = Steps xs \<and>
   runMainAgent (env\<lparr>planResponse := Inr No_text\<rparr>) task_text b =
     runMainAgent (env\<lparr>planResponse := Inr (Parsed (Steps (default_steps task_text)))\<rparr>) task_text b \<and>
   runMainAgent (env\<lparr>planResponse := Inr No_match\<rparr>) task_text b =
     runMainAgent (env\<lparr>planResponse := Inr (Parsed (Steps (default_steps task_text)))\<rparr>) task_text b \<and>
   runMainAgent (env\<lparr>planResponse := Inr Invalid_JSON\<rparr>) task_text b =
     runMainAgent (env\<lparr>planResponse := Inr (Parsed (Steps (default_steps task_text)))\<rparr>) task_text b"
proof -
  have same: "run_steps (env\<lparr>planResponse := r\<rparr>) pool k steps st = run_steps env pool k steps st"
    for r pool k steps st
    by (induction env pool k steps st rule: run_steps.induct) (simp_all add: Let_def split: sum.splits)
  have fin: "finish_main (env\<lparr>planResponse := r\<rparr>) b st = finish_main env b st" for r st
    by (auto simp: finish_main_def split: sum.splits)
  have run: "runMainAgent (env\<lparr>planResponse := Inr r\<rparr>) task_text b =
      runMainAgent (env\<lparr>planResponse := Inr (Parsed (parse_steps task_text r))\<rparr>) task_text b" for r
    by (cases r) (auto simp: runMainAgent_def fin same
        split: option.splits sum.splits steps_value.splits)
  show ?thesis
    using run[of No_text] run[of No_match] run[of Invalid_JSON]
    by (simp add: default_steps_def)
qed

section \<open>A failing code reader\<close>

text \<open>
  C4 on the sequential step of \<open>runCodebaseAnalysis\<close>. With a budget of 1 and a code
  reader that throws, the \<open>catch\<close> emits the error event and stores the fallback, and the
  statements after it pay the code reader 0.09, lower the remaining budget to 0.91 and
  emit its \<open>agent_complete\<close> event. The refund is 0.69, as in a run without failure.
\<close>

theorem failed_code_reader_is_paid:
  "runCodebaseAnalysis (codebase_ok\<lparr>runCodeReaderAgent := Inl (Error ''overloaded'')\<rparr>) 1 =
     ([Agent_start ''Code Reader Agent'' 30 (cents 9),
       Agent_error ''Code Reader Agent'' ''overloaded'',
       Agent_complete ''Code Reader Agent'' ''codeReader'' codeReader_fallback ''tx-pay''
         (cents 9) (cents 91),
       Agent_start ''Simplifier Agent'' 20 (cents 6),
       Agent_start ''Analogy Agent'' 25 (cents 8),
       Agent_start ''Insight Agent'' 25 (cents 8),
       Agent_complete ''Simplifier Agent'' ''simplifier'' ''glossary'' ''tx-pay'' (cents 6) (cents 85),
       Agent_complete ''Analogy Agent'' ''analogy'' ''slides'' ''tx-pay'' (cents 8) (cents 77),
       Agent_complete ''Insight Agent'' ''insight'' ''red flags'' ''tx-pay'' (cents 8) (cents 69),
       Analysis_complete
         [(''codeReader'', codeReader_fallback), (''simplifier'', ''glossary''),
          (''analogy'', ''slides''), (''insight'', ''red flags'')],
       Refund (cents 69) ''tx-refund''],
      Inr \<lparr>returned_results =
             [(''codeReader'', codeReader_fallback), (''simplifier'', ''glossary''),
              (''analogy'', ''slides''), (''insight'', ''red flags'')],
           spent = 698057942242427 / 2251799813685248, refunded = cents 69\<rparr>) \<and>
   map_sum id refunded
     (snd (runCodebaseAnalysis (codebase_ok\<lparr>runCodeReaderAgent := Inl (Error ''overloaded'')\<rparr>) 1)) =
   map_sum id refunded (snd (runCodebaseAnalysis codebase_ok 1))"
  by (simp add: run_codebase_reader_fails run_codebase_ok)

section \<open>Scenario A\<close>

text \<open>
  C6, as stated, fails: every payment is rounded to a whole number of hundredths, so the
  steps announced with a budget of 1 and the default plan are not paid 0.12, 0.105 and
  0.075.
\<close>

theorem scenario_A_claimed_payments:
  "List.map_filter announced_payment (fst (runMainAgent main_ok ''demo'' 1)) \<noteq>
     [round_double (12 / 100), round_double (105 / 1000), round_double (75 / 1000)]"
  by (simp add: run_main_ok List.map_filter_def differ_c11_0105)

text \<open>
  C6, amended. With a budget of 1, the default plan and three successful steps the agent
  pool is 0.3, the payments are 0.12, 0.11 and 0.08, the remaining budget goes through
  0.88, 0.77 and 0.69, the refund is 0.69 and the amount reported as spent is the double
  \<open>1 - 0.69\<close>, which is 0.31 up to one rounding.
\<close>

theorem scenario_A:
  "totalAgentBudget 1 = cents 30 \<and>
   runMainAgent main_ok ''demo'' 1 =
     ([Step_start ''Research Agent'' ''Research and find relevant information for: demo'' 40 (cents 12),
       Step_complete ''Research Agent'' ''Research and find relevant information for: demo''
         (cents 12) ''tx-pay'' (cents 88),
       Step_start ''Analysis Agent'' ''Analyze and evaluate the findings for: demo'' 35 (cents 11),
       Step_complete ''Analysis Agent'' ''Analyze and evaluate the findings for: demo''
         (cents 11) ''tx-pay'' (cents 77),
       Step_start ''Writer Agent'' ''Write a clear final report for: demo'' 25 (cents 8),
       Step_complete ''Writer Agent'' ''Write a clear final report for: demo''
         (cents 8) ''tx-pay'' (cents 69),
       Report ''report'', Refund (cents 69) ''tx-refund''],
      Inr \<lparr>returned_results =
             [(''Research Agent'', ''Research and find relevant information for: demo'', ''done''),
              (''Analysis Agent'', ''Analyze and evaluate the findings for: demo'', ''done''),
              (''Writer Agent'', ''Write a clear final report for: demo'', ''done'')],
           spent = js_sub 1 (cents 69), refunded = cents 69,
           finalReport = ''report'', refundTxId = ''tx-refund''\<rparr>) \<and>
   js_sub 1 (cents 69) = 698057942242427 / 2251799813685248 \<and>
   \<bar>js_sub 1 (cents 69) - 31 / 100\<bar> < 1 / 10 ^ 16 \<and>
   js_sub 1 (cents 69) \<noteq> cents 30 \<and>
   cents 69 \<noteq> round_double (7 / 10)"
  by (simp add: run_main_ok pool_1 spent_1_c69 differ_c69_07 cents_30_value)

section \<open>Events of one agent\<close>

lemma agent_trace_Nil [simp]: "agent_trace n [] = []"
  by (simp add: agent_trace_def List.map_filter_def)

lemma agent_trace_append [simp]: "agent_trace n (xs @ ys) = agent_trace n xs @ agent_trace n ys"
  by (simp add: agent_trace_def List.map_filter_def)

lemma agent_trace_Cons:
  "agent_trace n (e # es) =
     (case step_event e of
        None \<Rightarrow> agent_trace n es
      | Some (b, k) \<Rightarrow> if b = n then k # agent_trace n es else agent_trace n es)"
  by (simp add: agent_trace_def List.map_filter_def split: option.splits)

lemma step_kinds_Nil [simp]: "step_kinds [] = []"
  by (simp add: step_kinds_def List.map_filter_def)

lemma step_kinds_append [simp]: "step_kinds (xs @ ys) = step_kinds xs @ step_kinds ys"
  by (simp add: step_kinds_def List.map_filter_def)


section \<open>The phases of runCodebaseAnalysis\<close>

lemma pay_settled_returns:
  assumes "\<forall>a. \<exists>txId. paySubAgent env a = Inr txId"
  shows "snd (pay_settled env pool xs st) = None"
proof (induction xs arbitrary: st)
  case Nil
  show ?case by simp
next
  case (Cons x xs)
  obtain a v where x: "x = (a, v)" by (cases x)
  from assms obtain txId where "paySubAgent env a = Inr txId" by blast
  with Cons show ?case by (simp add: x Let_def)
qed

lemma pay_settled_trace:
  assumes "\<forall>a. \<exists>txId. paySubAgent env a = Inr txId"
  shows "agent_trace n (events (fst (pay_settled env pool xs st))) =
         agent_trace n (events st) @ replicate (length (filter (\<lambda>(a, v). agent_name a = n) xs)) K_complete"
proof (induction xs arbitrary: st)
  case Nil
  show ?case by simp
next
  case (Cons x xs)
  obtain a v where x: "x = (a, v)" by (cases x)
  from assms obtain txId where "paySubAgent env a = Inr txId" by blast
  with Cons show ?case
    by (simp add: x Let_def agent_trace_Cons replicate_app_Cons_same)
qed

lemma pay_settled_paid:
  assumes "\<forall>a. \<exists>txId. paySubAgent env a = Inr txId" and "(a, v) \<in> set xs"
  shows "\<exists>txId left. Agent_complete (agent_name a) (agent_key a) v txId (pay pool a) left
           \<in> set (events (fst (pay_settled env pool xs st)))"
proof -
  have keep: "set (events st) \<subseteq> set (events (fst (pay_settled env pool ys st)))" for ys st
  proof (induction ys arbitrary: st)
    case Nil
    show ?case by simp
  next
    case (Cons y ys)
    obtain c w where y: "y = (c, w)" by (cases y)
    from assms(1) obtain txId where tx: "paySubAgent env c = Inr txId" by blast
    have "set (events st) \<subseteq> set (events (st\<lparr>remainingBudget := deduct (remainingBudget st) (pay pool c),
        events := events st @ [Agent_complete (agent_name c) (agent_key c) w txId (pay pool c)
          (deduct (remainingBudget st) (pay pool c))]\<rparr>))"
      by auto
    also note Cons
    finally show ?case by (simp add: y tx Let_def)
  qed
  from assms(2) show ?thesis
  proof (induction xs arbitrary: st)
    case Nil
    then show ?case by simp
  next
    case (Cons x xs)
    obtain c w where x: "x = (c, w)" by (cases x)
    from assms(1) obtain txId where tx: "paySubAgent env c = Inr txId" by blast
    show ?case
    proof (cases "x = (a, v)")
      case True
      let ?st = "st\<lparr>remainingBudget := deduct (remainingBudget st) (pay pool a),
        events := events st @ [Agent_complete (agent_name a) (agent_key a) v txId (pay pool a)
          (deduct (remainingBudget st) (pay pool a))]\<rparr>"
      have "Agent_complete (agent_name a) (agent_key a) v txId (pay pool a)
          (deduct (remainingBudget st) (pay pool a)) \<in> set (events ?st)" by simp
      with keep[of ?st xs] show ?thesis using True x tx by (auto simp: Let_def)
    next
      case False
      with Cons.prems have "(a, v) \<in> set xs" by simp
      from Cons.IH[OF this] show ?thesis by (simp add: x tx Let_def)
    qed
  qed
qed

lemma record_settled_trace:
  "agent_trace n (events (record_settled xs st)) =
   agent_trace n (events st) @
     replicate (length (filter (\<lambda>(a, r). agent_name a = n \<and> isl r) xs)) K_error"
proof (induction xs st rule: record_settled.induct)
  case (1 st)
  show ?case by simp
next
  case (2 a v rest st)
  then show ?case by simp
next
  case (3 a reason rest st)
  then show ?case by (simp add: agent_trace_Cons replicate_app_Cons_same)
qed

lemma record_settled_remaining [simp]:
  "remainingBudget (record_settled xs st) = remainingBudget st"
  by (induction xs st rule: record_settled.induct) simp_all

lemma record_settled_errors:
  assumes "(a, Inl e) \<in> set xs"
  shows "Agent_error (agent_name a) (message e) \<in> set (events (record_settled xs st))"
proof -
  have keep: "set (events st) \<subseteq> set (events (record_settled ys st))" for ys st
    by (induction ys st rule: record_settled.induct) auto
  from assms show ?thesis
  proof (induction xs st rule: record_settled.induct)
    case (1 st)
    then show ?case by simp
  next
    case (2 c v rest st)
    then show ?case by simp
  next
    case (3 c reason rest st)
    show ?case
    proof (cases "(c, reason) = (a, e)")
      case True
      then show ?thesis
        using keep[of "st\<lparr>events := events st @ [Agent_error (agent_name a) (message e)]\<rparr>" rest]
        by auto
    next
      case False
      with 3 show ?thesis by auto
    qed
  qed
qed

lemma pay_settled_keeps:
  "set (events st) \<subseteq> set (events (fst (pay_settled env pool xs st)))"
proof (induction xs arbitrary: st)
  case Nil
  show ?case by simp
next
  case (Cons x xs)
  obtain c w where x: "x = (c, w)" by (cases x)
  show ?case
  proof (cases "paySubAgent env c")
    case (Inl e)
    then show ?thesis by (simp add: x)
  next
    case (Inr txId)
    have "set (events st) \<subseteq> set (events (st\<lparr>remainingBudget := deduct (remainingBudget st) (pay pool c),
        events := events st @ [Agent_complete (agent_name c) (agent_key c) w txId (pay pool c)
          (deduct (remainingBudget st) (pay pool c))]\<rparr>))"
      by auto
    also note Cons
    finally show ?thesis by (simp add: x Inr Let_def)
  qed
qed

lemma agent_name_inj [simp]: "agent_name a = agent_name c \<longleftrightarrow> a = c"
  by (cases a; cases c) simp_all

declare agent_name.simps [simp del]

lemma fulfilled_iff: "(a, v) \<in> set (fulfilled xs) \<longleftrightarrow> (a, Inr v) \<in> set xs"
  by (induction xs rule: fulfilled.induct) auto

lemma fulfilled_count:
  "length (filter (\<lambda>(c, v). c = a) (fulfilled xs)) =
   length (filter (\<lambda>(c, r). c = a \<and> \<not> isl r) xs)"
  by (induction xs rule: fulfilled.induct) auto

lemma phase2_member:
  "(a, r) \<in> set (phase2 env) \<longleftrightarrow> a \<in> {Simplifier, Analogy, Insight} \<and> worker env a = r"
  by (auto simp: phase2_def)

lemma count_fulfilled:
  assumes "a \<in> {Simplifier, Analogy, Insight}"
  shows "length (filter (\<lambda>(c, v). c = a) (fulfilled (phase2 env))) =
         (if isl (worker env a) then 0 else 1)"
  using assms by (auto simp: fulfilled_count phase2_def)

lemma count_rejected:
  assumes "a \<in> {Simplifier, Analogy, Insight}"
  shows "length (filter (\<lambda>(c, r). c = a \<and> isl r) (phase2 env)) =
         (if isl (worker env a) then 1 else 0)"
  using assms by (auto simp: phase2_def)

lemma run_phase2_returns:
  assumes "\<forall>a. \<exists>txId. paySubAgent env a = Inr txId"
  shows "snd (run_phase2 env pool st) = None"
  by (simp add: run_phase2_def Let_def pay_settled_returns[OF assms])

lemma run_phase2_trace:
  assumes "\<forall>a. \<exists>txId. paySubAgent env a = Inr txId" and "a \<in> {Simplifier, Analogy, Insight}"
  shows "agent_trace (agent_name a) (events (fst (run_phase2 env pool st))) =
         agent_trace (agent_name a) (events st) @ [K_start, closing_kind (worker env a)]"
proof -
  have starts: "agent_trace (agent_name a)
      (map (\<lambda>(c, r). Agent_start (agent_name c) (AGENT_ALLOCATIONS c) (pay pool c)) (phase2 env)) = [K_start]"
    using assms(2) by (auto simp: phase2_def agent_trace_Cons)
  have sorted: "length (filter (\<lambda>(c, v). c = a)
      (sort_key (\<lambda>(c, v). payLatency env c) (fulfilled (phase2 env)))) =
      (if isl (worker env a) then 0 else 1)"
    by (simp add: filter_sort count_fulfilled[OF assms(2)])
  show ?thesis
    by (cases "worker env a")
       (simp_all add: run_phase2_def Let_def pay_settled_trace[OF assms(1)] record_settled_trace
          starts sorted count_rejected[OF assms(2)])
qed

lemma run_phase2_paid:
  assumes "\<forall>a. \<exists>txId. paySubAgent env a = Inr txId" and "a \<in> {Simplifier, Analogy, Insight}"
    and "worker env a = Inr v"
  shows "\<exists>txId left. Agent_complete (agent_name a) (agent_key a) v txId (pay pool a) left
           \<in> set (events (fst (run_phase2 env pool st)))"
proof -
  have "(a, v) \<in> set (sort_key (\<lambda>(c, v). payLatency env c) (fulfilled (phase2 env)))"
    using assms(2,3) by (simp add: fulfilled_iff phase2_member)
  from pay_settled_paid[OF assms(1) this] show ?thesis
    by (simp add: run_phase2_def Let_def)
qed

lemma run_phase2_errors:
  assumes "a \<in> {Simplifier, Analogy, Insight}" and "worker env a = Inl e"
  shows "Agent_error (agent_name a) (message e) \<in> set (events (fst (run_phase2 env pool st)))"
proof -
  let ?st1 = "st\<lparr>events := events st @
      map (\<lambda>(a, r). Agent_start (agent_name a) (AGENT_ALLOCATIONS a) (pay pool a)) (phase2 env)\<rparr>"
  have "(a, Inl e) \<in> set (phase2 env)" using assms by (simp add: phase2_member)
  then have "Agent_error (agent_name a) (message e) \<in> set (events (record_settled (phase2 env) ?st1))"
    by (rule record_settled_errors)
  then have "Agent_error (agent_name a) (message e) \<in> set (events (fst (pay_settled env pool
      (sort_key (\<lambda>(c, v). payLatency env c) (fulfilled (phase2 env)))
      (record_settled (phase2 env) ?st1))))"
    using pay_settled_keeps by blast
  then show ?thesis by (simp add: run_phase2_def Let_def)
qed

lemma phase1_returns:
  assumes "paySubAgent env Code_Reader = Inr txId"
  shows "snd (phase1 env pool st) = None"
  using assms by (simp add: phase1_def Let_def split: sum.splits prod.splits)

lemma phase1_trace:
  assumes "a \<in> {Simplifier, Analogy, Insight}"
  shows "agent_trace (agent_name a) (events (fst (phase1 env pool st))) =
         agent_trace (agent_name a) (events st)"
proof -
  have n: "agent_name Code_Reader \<noteq> agent_name a" using assms by (simp only: agent_name_inj) auto
  show ?thesis
    using n by (cases "runCodeReaderAgent env"; cases "paySubAgent env Code_Reader")
      (simp_all add: phase1_def Let_def agent_trace_Cons del: agent_name_inj)
qed

lemma phase1_errors:
  assumes "runCodeReaderAgent env = Inl e"
  shows "Agent_error (agent_name Code_Reader) (message e) \<in> set (events (fst (phase1 env pool st)))"
  using assms by (cases "paySubAgent env Code_Reader") (simp_all add: phase1_def Let_def)

lemma finish_codebase_returns:
  assumes "refundRemainder env = Inr refundTx"
  shows "\<exists>out. snd (finish_codebase env b st) = Inr out \<and>
           last (fst (finish_codebase env b st)) = Refund (refunded out) refundTx"
  using assms by (simp add: finish_codebase_def Let_def)

lemma finish_codebase_trace:
  "agent_trace n (fst (finish_codebase env b st)) = agent_trace n (events st)"
  by (auto simp: finish_codebase_def Let_def agent_trace_Cons split: sum.splits option.splits)

lemma finish_codebase_keeps:
  "set (events st) \<subseteq> set (fst (finish_codebase env b st))"
  by (auto simp: finish_codebase_def Let_def split: sum.splits option.splits)

lemma codebase_run_unfold:
  assumes "initClient env = None" "createHCSTopic env = Inr topicId" "fundAgent env = Inr scheduleId"
    and "\<forall>a. \<exists>txId. paySubAgent env a = Inr txId"
  shows "runCodebaseAnalysis env b =
         finish_codebase env b
           (fst (run_phase2 env (totalAgentBudget b)
              (fst (phase1 env (totalAgentBudget b)
                 \<lparr>remainingBudget = b, results = [], events = []\<rparr>))))"
proof -
  from assms(4) obtain txId where "paySubAgent env Code_Reader = Inr txId" by blast
  from phase1_returns[OF this] run_phase2_returns[OF assms(4)] assms(1-3)
  show ?thesis
    by (simp add: runCodebaseAnalysis_def split_beta)
qed

section \<open>The loop of runMainAgent\<close>





section \<open>Prefixes of the event stream\<close>

lemma pay_settled_prefix:
  "\<exists>rest. events (fst (pay_settled env pool xs st)) = events st @ rest"
proof (induction xs arbitrary: st)
  case Nil
  show ?case by simp
next
  case (Cons x xs)
  obtain c w where x: "x = (c, w)" by (cases x)
  show ?case
  proof (cases "paySubAgent env c")
    case (Inl e)
    then show ?thesis by (simp add: x)
  next
    case (Inr txId)
    let ?st = "st\<lparr>remainingBudget := deduct (remainingBudget st) (pay pool c),
        events := events st @ [Agent_complete (agent_name c) (agent_key c) w txId (pay pool c)
          (deduct (remainingBudget st) (pay pool c))]\<rparr>"
    from Cons[of ?st] obtain rest where
      "events (fst (pay_settled env pool xs ?st)) = events ?st @ rest" by blast
    then show ?thesis by (simp add: x Inr Let_def)
  qed
qed

lemma record_settled_prefix:
  "\<exists>rest. events (record_settled xs st) = events st @ rest"
proof (induction xs st rule: record_settled.induct)
  case (1 st)
  show ?case by simp
next
  case (2 a v rest st)
  then show ?case by simp
next
  case (3 a reason rest st)
  then show ?case by auto
qed

lemma run_phase2_prefix:
  "\<exists>rest. events (fst (run_phase2 env pool st)) = events st @ rest"
proof -
  let ?st1 = "st\<lparr>events := events st @
      map (\<lambda>(a, r). Agent_start (agent_name a) (AGENT_ALLOCATIONS a) (pay pool a)) (phase2 env)\<rparr>"
  obtain r1 where r1: "events (record_settled (phase2 env) ?st1) = events ?st1 @ r1"
    using record_settled_prefix by blast
  obtain r2 where "events (fst (pay_settled env pool
      (sort_key (\<lambda>(c, v). payLatency env c) (fulfilled (phase2 env)))
      (record_settled (phase2 env) ?st1))) = events (record_settled (phase2 env) ?st1) @ r2"
    using pay_settled_prefix by blast
  with r1 show ?thesis by (simp add: run_phase2_def Let_def)
qed

lemma run_phase2_keeps:
  "set (events st) \<subseteq> set (events (fst (run_phase2 env pool st)))"
  using run_phase2_prefix[of env pool st] by auto




section \<open>Independence of the persistence function\<close>

lemma pay_settled_persist [simp]:
  "pay_settled (env\<lparr>persistFn := p\<rparr>) pool xs st = pay_settled env pool xs st"
  by (induction xs arbitrary: st) (auto simp: Let_def split: sum.splits)

lemma phase1_persist [simp]: "phase1 (env\<lparr>persistFn := p\<rparr>) pool st = phase1 env pool st"
  by (simp add: phase1_def)

lemma run_phase2_persist [simp]:
  "run_phase2 (env\<lparr>persistFn := p\<rparr>) pool st = run_phase2 env pool st"
  by (simp add: run_phase2_def phase2_def)

lemma finish_codebase_persist:
  "finish_codebase (env\<lparr>persistFn := Some (Inl e)\<rparr>) b st =
   finish_codebase (env\<lparr>persistFn := None\<rparr>) b st"
  "snd (finish_codebase (env\<lparr>persistFn := p\<rparr>) b st) =
   snd (finish_codebase (env\<lparr>persistFn := None\<rparr>) b st)"
  by (auto simp: finish_codebase_def Let_def split: sum.splits option.splits)

lemma codebase_persist_cases:
  "runCodebaseAnalysis (env\<lparr>persistFn := p\<rparr>) b =
     (case initClient env of
        Some e \<Rightarrow> ([], Inl e)
      | None \<Rightarrow>
     (case createHCSTopic env of
        Inl e \<Rightarrow> ([], Inl e)
      | Inr topicId \<Rightarrow>
     (case fundAgent env of
        Inl e \<Rightarrow> ([], Inl e)
      | Inr scheduleId \<Rightarrow>
     (case phase1 env (totalAgentBudget b)
             \<lparr>remainingBudget = b, results = [], events = []\<rparr> of
        (st, Some e) \<Rightarrow> (events st, Inl e)
      | (st, None) \<Rightarrow>
     (case run_phase2 env (totalAgentBudget b) st of
        (st', Some e) \<Rightarrow> (events st', Inl e)
      | (st', None) \<Rightarrow> finish_codebase (env\<lparr>persistFn := p\<rparr>) b st')))))"
  by (auto simp: runCodebaseAnalysis_def split: option.splits sum.splits prod.splits)

section \<open>Failing agents\<close>

text \<open>
  C3, as stated, fails for \<open>runMainAgent\<close>: its loop has no \<open>try\<close>. When the first agent
  throws, the run ends with that error after the \<open>step_start\<close> event; no error event is
  emitted for the step, the other steps are not run and nothing is refunded.
\<close>

theorem main_agent_failure_ends_run:
  "runMainAgent (main_ok\<lparr>runSubAgent := (\<lambda>k. if k = 0 then Inl (Error ''overloaded'') else Inr ''done'')\<rparr>)
       ''demo'' 1 =
     ([Step_start ''Research Agent'' ''Research and find relevant information for: demo'' 40 (cents 12)],
      Inl (Error ''overloaded''))"
  by (rule run_main_first_worker_fails)

text \<open>
  C3, amended. In \<open>runCodebaseAnalysis\<close>, when the calls of the ledger succeed, the
  failure of any agent is recorded as an \<open>agent_error\<close> event for that agent and the run
  goes on to the refund and returns its outcome. Each agent of the parallel phase is
  started once, a failed one gets its error event and nothing else, and one that did not
  fail gets its \<open>agent_complete\<close> event with its payment, whatever the other agents did.
  In \<open>runMainAgent\<close> a step whose agent throws ends the run with that error.
\<close>

theorem codebase_failures_are_isolated:
  assumes "initClient env = None" "createHCSTopic env = Inr topicId" "fundAgent env = Inr scheduleId"
    and "\<forall>a. \<exists>txId. paySubAgent env a = Inr txId" and "refundRemainder env = Inr refundTx"
  shows "(\<exists>out. snd (runCodebaseAnalysis env b) = Inr out \<and>
            last (fst (runCodebaseAnalysis env b)) = Refund (refunded out) refundTx) \<and>
         (\<forall>a e. worker env a = Inl e \<longrightarrow>
            Agent_error (agent_name a) (message e) \<in> set (fst (runCodebaseAnalysis env b))) \<and>
         (\<forall>a \<in> {Simplifier, Analogy, Insight}.
            agent_trace (agent_name a) (fst (runCodebaseAnalysis env b)) =
              [K_start, closing_kind (worker env a)]) \<and>
         (\<forall>a \<in> {Simplifier, Analogy, Insight}. \<forall>v. worker env a = Inr v \<longrightarrow>
            (\<exists>txId left. Agent_complete (agent_name a) (agent_key a) v txId
                (pay (totalAgentBudget b) a) left \<in> set (fst (runCodebaseAnalysis env b)))) \<and>
         (\<not> remainingBudget st < payment (allocation s) pool \<longrightarrow> runSubAgent env' k = Inl e' \<longrightarrow>
            run_steps env' pool k (s # ss) st =
              (st\<lparr>events := events st @
                 [Step_start (agent s) (task s) (allocation s) (payment (allocation s) pool)]\<rparr>,
               Threw e'))"
proof -
  let ?P = "totalAgentBudget b"
  let ?st1 = "fst (phase1 env ?P \<lparr>remainingBudget = b, results = [], events = []\<rparr>)"
  let ?st2 = "fst (run_phase2 env ?P ?st1)"
  note run = codebase_run_unfold[OF assms(1-4), of b]
  have returns: "\<exists>out. snd (runCodebaseAnalysis env b) = Inr out \<and>
      last (fst (runCodebaseAnalysis env b)) = Refund (refunded out) refundTx"
    unfolding run by (rule finish_codebase_returns[OF assms(5)])
  have errors: "Agent_error (agent_name a) (message e) \<in> set (fst (runCodebaseAnalysis env b))"
    if "worker env a = Inl e" for a e
  proof (cases "a = Code_Reader")
    case True
    with that have "Agent_error (agent_name a) (message e) \<in> set (events ?st1)"
      using phase1_errors[of env e ?P] by simp
    then have "Agent_error (agent_name a) (message e) \<in> set (events ?st2)"
      using run_phase2_keeps by blast
    then show ?thesis unfolding run using finish_codebase_keeps by blast
  next
    case False
    then have "a \<in> {Simplifier, Analogy, Insight}" by (cases a) simp_all
    from run_phase2_errors[OF this that]
    have "Agent_error (agent_name a) (message e) \<in> set (events ?st2)" .
    then show ?thesis unfolding run using finish_codebase_keeps by blast
  qed
  have traces: "agent_trace (agent_name a) (fst (runCodebaseAnalysis env b)) =
      [K_start, closing_kind (worker env a)]" if "a \<in> {Simplifier, Analogy, Insight}" for a
    unfolding run
    by (simp add: finish_codebase_trace run_phase2_trace[OF assms(4) that] phase1_trace[OF that])
  have paid: "\<exists>txId left. Agent_complete (agent_name a) (agent_key a) v txId (pay ?P a) left
      \<in> set (fst (runCodebaseAnalysis env b))"
    if "a \<in> {Simplifier, Analogy, Insight}" "worker env a = Inr v" for a v
  proof -
    from run_phase2_paid[OF assms(4) that, of ?P ?st1] obtain txId left where
      "Agent_complete (agent_name a) (agent_key a) v txId (pay ?P a) left \<in> set (events ?st2)"
      by blast
    then show ?thesis unfolding run using finish_codebase_keeps by blast
  qed
  have main: "run_steps env' pool k (s # ss) st =
      (st\<lparr>events := events st @
         [Step_start (agent s) (task s) (allocation s) (payment (allocation s) pool)]\<rparr>, Threw e')"
    if "\<not> remainingBudget st < payment (allocation s) pool" "runSubAgent env' k = Inl e'"
    using that by (simp add: Let_def)
  from returns errors traces paid main show ?thesis by blast
qed

theorem codebase_failures_are_isolated_witness:
  "snd (runCodebaseAnalysis (codebase_ok\<lparr>runAnalogyAgent := Inl (Error ''overloaded'')\<rparr>) 1) \<noteq>
     Inl (Error ''overloaded'') \<and>
   Agent_error ''Analogy Agent'' ''overloaded''
     \<in> set (fst (runCodebaseAnalysis (codebase_ok\<lparr>runAnalogyAgent := Inl (Error ''overloaded'')\<rparr>) 1)) \<and>
   agent_trace ''Analogy Agent''
     (fst (runCodebaseAnalysis (codebase_ok\<lparr>runAnalogyAgent := Inl (Error ''overloaded'')\<rparr>) 1)) =
     [K_start, K_error] \<and>
   agent_trace ''Insight Agent''
     (fst (runCodebaseAnalysis (codebase_ok\<lparr>runAnalogyAgent := Inl (Error ''overloaded'')\<rparr>) 1)) =
     [K_start, K_complete] \<and>
   (\<exists>txId left. Agent_complete ''Insight Agent'' ''insight'' ''red flags'' txId (cents 8) left
      \<in> set (fst (runCodebaseAnalysis (codebase_ok\<lparr>runAnalogyAgent := Inl (Error ''overloaded'')\<rparr>) 1))) \<and>
   run_steps (main_ok\<lparr>runSubAgent := (\<lambda>k. Inl (Error ''overloaded''))\<rparr>) (cents 30) 0
       (default_steps ''demo'') \<lparr>remainingBudget = 1, results = [], events = []\<rparr> =
     (\<lparr>remainingBudget = 1, results = [],
       events = [Step_start ''Research Agent'' ''Research and find relevant information for: demo''
                   40 (cents 12)]\<rparr>,
      Threw (Error ''overloaded''))"
proof -
  let ?env = "codebase_ok\<lparr>runAnalogyAgent := Inl (Error ''overloaded'')\<rparr>"
  let ?env' = "main_ok\<lparr>runSubAgent := (\<lambda>k. Inl (Error ''overloaded''))\<rparr>"
  let ?s = "\<lparr>agent = ''Research Agent'',
      task = ''Research and find relevant information for: demo'', allocation = 40\<rparr>"
  let ?ss = "[\<lparr>agent = ''Analysis Agent'',
      task = ''Analyze and evaluate the findings for: demo'', allocation = 35\<rparr>,
     \<lparr>agent = ''Writer Agent'',
      task = ''Write a clear final report for: demo'', allocation = 25\<rparr>]"
  have h: "initClient ?env = None" "createHCSTopic ?env = Inr ''0.0.1001''"
    "fundAgent ?env = Inr ''0.0.2002''" "\<forall>a. \<exists>txId. paySubAgent ?env a = Inr txId"
    "refundRemainder ?env = Inr ''tx-refund''"
    by (simp_all add: codebase_ok_def)
  have w: "worker ?env Analogy = Inl (Error ''overloaded'')" "worker ?env Insight = Inr ''red flags''"
    by (simp_all add: codebase_ok_def)
  have m: "\<not> remainingBudget \<lparr>remainingBudget = 1, results = [], events = []\<rparr>
      < payment (allocation ?s) (cents 30)" "runSubAgent ?env' 0 = Inl (Error ''overloaded'')"
    by (simp_all add: payment_40_of_c30 not_less_1_c12)
  note T = codebase_failures_are_isolated[OF h, of 1
      "\<lparr>remainingBudget = 1, results = [], events = []\<rparr>" ?s "cents 30" ?env' 0
      "Error ''overloaded''" ?ss]
  from T have 1: "snd (runCodebaseAnalysis ?env 1) \<noteq> Inl (Error ''overloaded'')" by auto
  from T w(1) have "Agent_error (agent_name Analogy) (message (Error ''overloaded''))
      \<in> set (fst (runCodebaseAnalysis ?env 1))" by blast
  then have 2: "Agent_error ''Analogy Agent'' ''overloaded'' \<in> set (fst (runCodebaseAnalysis ?env 1))"
    by (simp add: agent_name.simps)
  from T have "agent_trace (agent_name Analogy) (fst (runCodebaseAnalysis ?env 1)) =
      [K_start, closing_kind (worker ?env Analogy)]" by blast
  then have 3: "agent_trace ''Analogy Agent'' (fst (runCodebaseAnalysis ?env 1)) = [K_start, K_error]"
    by (simp add: codebase_ok_def agent_name.simps)
  from T have "agent_trace (agent_name Insight) (fst (runCodebaseAnalysis ?env 1)) =
      [K_start, closing_kind (worker ?env Insight)]" by blast
  then have 4: "agent_trace ''Insight Agent'' (fst (runCodebaseAnalysis ?env 1)) = [K_start, K_complete]"
    by (simp add: codebase_ok_def agent_name.simps)
  from T w(2) have "\<exists>txId left. Agent_complete (agent_name Insight) (agent_key Insight) ''red flags''
      txId (pay (totalAgentBudget 1) Insight) left \<in> set (fst (runCodebaseAnalysis ?env 1))"
    by blast
  then have 5: "\<exists>txId left. Agent_complete ''Insight Agent'' ''insight'' ''red flags'' txId (cents 8) left
      \<in> set (fst (runCodebaseAnalysis ?env 1))"
    by (simp add: agent_name.simps pool_1 pay_def payment_25_of_c30)
  from T[THEN conjunct2, THEN conjunct2, THEN conjunct2, THEN conjunct2] m
  have 6: "run_steps ?env' (cents 30) 0 (default_steps ''demo'')
      \<lparr>remainingBudget = 1, results = [], events = []\<rparr> =
     (\<lparr>remainingBudget = 1, results = [],
       events = [Step_start ''Research Agent'' ''Research and find relevant information for: demo''
                   40 (cents 12)]\<rparr>,
      Threw (Error ''overloaded''))"
    by (simp add: default_steps_def payment_40_of_c30)
  from 1 2 3 4 5 6 show ?thesis by blast
qed

section \<open>The exhaustion check\<close>




section \<open>Events of a step\<close>




section \<open>Persistence\<close>

text \<open>
  C9. \<open>runCodebaseAnalysis\<close> calls the persistence function only when one is supplied,
  and an error thrown by it is caught and logged: the run with a failing persistence
  function is the run without one, event for event. Whatever the persistence function
  does, the result of the run is the same. With a ledger whose calls succeed, the run
  without persistence ends with the refund of the remaining budget and returns its
  outcome.
\<close>

theorem persistence_is_optional:
  "runCodebaseAnalysis (env\<lparr>persistFn := Some (Inl e)\<rparr>) b =
     runCodebaseAnalysis (env\<lparr>persistFn := None\<rparr>) b \<and>
   snd (runCodebaseAnalysis (env\<lparr>persistFn := p\<rparr>) b) =
     snd (runCodebaseAnalysis (env\<lparr>persistFn := None\<rparr>) b) \<and>
   (initClient env = None \<and> createHCSTopic env = Inr topicId \<and> fundAgent env = Inr scheduleId \<and>
    (\<forall>a. \<exists>txId. paySubAgent env a = Inr txId) \<and> refundRemainder env = Inr refundTx \<longrightarrow>
      (\<exists>out. snd (runCodebaseAnalysis (env\<lparr>persistFn := None\<rparr>) b) = Inr out \<and>
         last (fst (runCodebaseAnalysis (env\<lparr>persistFn := None\<rparr>) b)) =
           Refund (refunded out) refundTx))"
proof -
  have 1: "runCodebaseAnalysis (env\<lparr>persistFn := Some (Inl e)\<rparr>) b =
      runCodebaseAnalysis (env\<lparr>persistFn := None\<rparr>) b"
    by (simp only: codebase_persist_cases finish_codebase_persist(1))
  have 2: "snd (runCodebaseAnalysis (env\<lparr>persistFn := p\<rparr>) b) =
      snd (runCodebaseAnalysis (env\<lparr>persistFn := None\<rparr>) b)"
    using finish_codebase_persist(2)[where env = env and p = p and b = b]
    by (auto simp: codebase_persist_cases split: option.splits sum.splits prod.splits)
  have 3: "\<exists>out. snd (runCodebaseAnalysis (env\<lparr>persistFn := None\<rparr>) b) = Inr out \<and>
      last (fst (runCodebaseAnalysis (env\<lparr>persistFn := None\<rparr>) b)) = Refund (refunded out) refundTx"
    if h: "initClient env = None" "createHCSTopic env = Inr topicId" "fundAgent env = Inr scheduleId"
      "\<forall>a. \<exists>txId. paySubAgent env a = Inr txId" "refundRemainder env = Inr refundTx"
  proof -
    let ?env = "env\<lparr>persistFn := None\<rparr>"
    have h': "initClient ?env = None" "createHCSTopic ?env = Inr topicId"
      "fundAgent ?env = Inr scheduleId" "\<forall>a. \<exists>txId. paySubAgent ?env a = Inr txId"
      using h by simp_all
    have r: "refundRemainder ?env = Inr refundTx" using h by simp
    show ?thesis
      unfolding codebase_run_unfold[OF h', of b] by (rule finish_codebase_returns[OF r])
  qed
  from 1 2 3 show ?thesis by blast
qed

theorem persistence_is_optional_witness:
  "runCodebaseAnalysis (codebase_ok\<lparr>persistFn := Some (Inl (Error ''MONGODB_URI is not set in .env''))\<rparr>) 1 =
     runCodebaseAnalysis (codebase_ok\<lparr>persistFn := None\<rparr>) 1 \<and>
   snd (runCodebaseAnalysis (codebase_ok\<lparr>persistFn := Some (Inr ''4f2a90c1d3e85b67'')\<rparr>) 1) =
     snd (runCodebaseAnalysis (codebase_ok\<lparr>persistFn := None\<rparr>) 1) \<and>
   (\<exists>out. snd (runCodebaseAnalysis (codebase_ok\<lparr>persistFn := None\<rparr>) 1) = Inr out \<and>
      last (fst (runCodebaseAnalysis (codebase_ok\<lparr>persistFn := None\<rparr>) 1)) =
        Refund (refunded out) ''tx-refund'')"
proof -
  have h: "initClient codebase_ok = None \<and> createHCSTopic codebase_ok = Inr ''0.0.1001'' \<and>
      fundAgent codebase_ok = Inr ''0.0.2002'' \<and> (\<forall>a. \<exists>txId. paySubAgent codebase_ok a = Inr txId) \<and>
      refundRemainder codebase_ok = Inr ''tx-refund''"
    by (simp add: codebase_ok_def)
  from persistence_is_optional[where env = codebase_ok and b = 1
      and e = "Error ''MONGODB_URI is not set in .env''" and p = "Some (Inr ''4f2a90c1d3e85b67'')"
      and topicId = "''0.0.1001''" and scheduleId = "''0.0.2002''" and refundTx = "''tx-refund''"] h
  show ?thesis by blast
qed

section \<open>Amounts in hundredths\<close>

lemma round_double_error_weak: "\<bar>round_double x - x\<bar> \<le> \<bar>x\<bar> / 2 ^ 53 + 1 / 2 ^ 100"
proof -
  have "(1 :: rat) / 2 ^ 1075 \<le> 1 / 2 ^ 100" by simp
  with round_double_error[of x] show ?thesis by linarith
qed

lemma round_double_near:
  assumes "\<bar>x\<bar> \<le> c"
  shows "\<bar>round_double x - x\<bar> \<le> c / 2 ^ 53 + 1 / 2 ^ 100"
proof -
  have "\<bar>x\<bar> / 2 ^ 53 \<le> c / 2 ^ 53" using assms by (simp add: divide_right_mono)
  with round_double_error_weak[of x] show ?thesis by linarith
qed

lemma Math_round_eq:
  assumes "\<bar>x - of_int n\<bar> < 1 / 2"
  shows "Math_round x = of_int n"
proof -
  have "of_int n \<le> x + 1 / 2" "x + 1 / 2 < of_int n + 1" using assms by linarith+
  then have "\<lfloor>x + 1 / 2\<rfloor> = n" by (rule floor_unique)
  then show ?thesis by (simp add: Math_round_def)
qed

lemma Math_round_int: "\<exists>n. Math_round x = of_int n \<and> of_int n \<le> x + 1 / 2 \<and> x - 1 / 2 < of_int n"
proof -
  have "of_int \<lfloor>x + 1 / 2\<rfloor> \<le> x + 1 / 2" "x + 1 / 2 < of_int \<lfloor>x + 1 / 2\<rfloor> + 1" by linarith+
  then show ?thesis unfolding Math_round_def by (intro exI[of _ "\<lfloor>x + 1 / 2\<rfloor>"]) auto
qed

lemma cents_eq: "cents n = round_double (of_int n / 100)"
  by (simp add: cents_def js_div_def)

lemma cents_zero [simp]: "cents 0 = 0"
  by (simp add: cents_eq)

lemma cents_mono: "m \<le> n \<Longrightarrow> cents m \<le> cents n"
  unfolding cents_eq by (rule round_double_mono) (simp add: divide_right_mono)

lemma cents_nonneg: "0 \<le> n \<Longrightarrow> 0 \<le> cents n"
  using cents_mono[of 0 n] by simp

lemma cents_near:
  assumes "\<bar>n\<bar> \<le> 2 ^ 47"
  shows "\<bar>cents n - of_int n / 100\<bar> \<le> 1 / 6400 + 1 / 2 ^ 100"
proof -
  have "\<bar>of_int n :: rat\<bar> \<le> 2 ^ 47"
  proof -
    have "(of_int \<bar>n\<bar> :: rat) \<le> of_int (2 ^ 47)" using assms by (simp only: of_int_le_iff)
    then show ?thesis by simp
  qed
  then have "\<bar>of_int n / 100 :: rat\<bar> \<le> 2 ^ 47 / 100" by simp
  from round_double_near[OF this] show ?thesis by (simp add: cents_eq)
qed

lemma cents_succ_less:
  assumes "\<bar>n\<bar> \<le> 2 ^ 47 - 1"
  shows "cents n < cents (n + 1)"
proof -
  have a: "\<bar>n\<bar> \<le> 2 ^ 47" "\<bar>n + 1\<bar> \<le> 2 ^ 47" using assms by linarith+
  have "(of_int (n + 1) :: rat) / 100 = of_int n / 100 + 1 / 100" by simp
  moreover have "(1 :: rat) / 6400 + 1 / 2 ^ 100 < 1 / 200" by simp
  ultimately show ?thesis using cents_near[OF a(1)] cents_near[OF a(2)] by linarith
qed

lemma cents_less_imp:
  assumes "cents m \<le> cents n" "\<bar>n\<bar> \<le> 2 ^ 47 - 1"
  shows "m \<le> n"
proof (rule ccontr)
  assume "\<not> m \<le> n"
  then have "n + 1 \<le> m" by simp
  then have "cents (n + 1) \<le> cents m" by (rule cents_mono)
  with cents_succ_less[OF assms(2)] assms(1) show False by simp
qed

lemma of_int_abs_le:
  assumes "\<bar>n\<bar> \<le> 2 ^ 47"
  shows "\<bar>of_int n :: rat\<bar> \<le> 140737488355328"
proof -
  have "(of_int \<bar>n\<bar> :: rat) \<le> of_int (2 ^ 47)" using assms by (simp only: of_int_le_iff)
  then show ?thesis by simp
qed

lemma cents_close:
  assumes "\<bar>n\<bar> \<le> 2 ^ 47"
  shows "\<bar>cents n - of_int n / 100\<bar> \<le> 1 / 6000"
proof -
  have "(1 :: rat) / 6400 + 1 / 2 ^ 100 \<le> 1 / 6000" by simp
  with cents_near[OF assms] show ?thesis by linarith
qed

lemma deduct_cents:
  assumes "\<bar>n\<bar> \<le> 2 ^ 47" "\<bar>m\<bar> \<le> 2 ^ 47"
  shows "deduct (cents n) (cents m) = cents (n - m)"
proof -
  define x :: rat where "x = of_int n"
  define y :: rat where "y = of_int m"
  define r where "r = cents n"
  define p where "p = cents m"
  define d where "d = round_double (r - p)"
  define v where "v = round_double (d * 100)"
  have N: "\<bar>x\<bar> \<le> 140737488355328" "\<bar>y\<bar> \<le> 140737488355328"
    unfolding x_def y_def by (rule of_int_abs_le[OF assms(1)], rule of_int_abs_le[OF assms(2)])
  have er: "\<bar>r - x / 100\<bar> \<le> 1 / 6000"
    unfolding r_def x_def by (rule cents_close[OF assms(1)])
  have ep: "\<bar>p - y / 100\<bar> \<le> 1 / 6000"
    unfolding p_def y_def by (rule cents_close[OF assms(2)])
  have rp: "\<bar>r - p\<bar> \<le> 3000000000000"
    using er ep N by linarith
  have "(3000000000000 :: rat) / 2 ^ 53 + 1 / 2 ^ 100 \<le> 1 / 2500" by simp
  with round_double_near[OF rp] have ed: "\<bar>d - (r - p)\<bar> \<le> 1 / 2500"
    unfolding d_def by linarith
  have d100: "\<bar>d * 100\<bar> \<le> 400000000000000"
    using ed rp by linarith
  have "(400000000000000 :: rat) / 2 ^ 53 + 1 / 2 ^ 100 \<le> 1 / 20" by simp
  with round_double_near[OF d100] have ev: "\<bar>v - d * 100\<bar> \<le> 1 / 20"
    unfolding v_def by linarith
  have "\<bar>v - (x - y)\<bar> < 1 / 2"
    using ev ed er ep by linarith
  then have "\<bar>v - of_int (n - m)\<bar> < 1 / 2" by (simp add: x_def y_def)
  then have "Math_round v = of_int (n - m)" by (rule Math_round_eq)
  then show ?thesis
    by (simp add: deduct_def js_sub_def js_mul_def js_div_def cents_def v_def d_def r_def p_def)
qed

lemma Math_round_bounds:
  assumes "of_int lo \<le> x" "x \<le> of_int hi"
  shows "\<exists>n. Math_round x = of_int n \<and> lo \<le> n \<and> n \<le> hi"
proof -
  have "of_int lo \<le> x + 1 / 2" using assms(1) by linarith
  then have 1: "lo \<le> \<lfloor>x + 1 / 2\<rfloor>" by (simp only: le_floor_iff)
  have "x + 1 / 2 < of_int (hi + 1)" using assms(2) by simp
  then have "\<lfloor>x + 1 / 2\<rfloor> < hi + 1" by (simp only: floor_less_iff)
  with 1 show ?thesis by (auto simp: Math_round_def)
qed

lemma times_100_bounds:
  assumes "of_int lo \<le> x" "x \<le> of_int hi" "\<bar>lo\<bar> \<le> 2 ^ 46" "\<bar>hi\<bar> \<le> 2 ^ 46"
  shows "of_int (100 * lo) \<le> js_mul x 100" "js_mul x 100 \<le> of_int (100 * hi)"
proof -
  have b: "\<bar>100 * lo\<bar> \<le> 2 ^ 53" "\<bar>100 * hi\<bar> \<le> 2 ^ 53" using assms(3,4) by simp_all
  have "of_int (100 * lo) \<le> x * 100" using assms(1) by simp
  then show "of_int (100 * lo) \<le> js_mul x 100"
    unfolding js_mul_def by (rule round_double_ge_int[OF _ b(1)])
  have "x * 100 \<le> of_int (100 * hi)" using assms(2) by simp
  then show "js_mul x 100 \<le> of_int (100 * hi)"
    unfolding js_mul_def by (rule round_double_le_int[OF _ b(2)])
qed

lemma round2_bounds:
  assumes "of_int lo \<le> x" "x \<le> of_int hi" "\<bar>lo\<bar> \<le> 2 ^ 46" "\<bar>hi\<bar> \<le> 2 ^ 46"
  shows "\<exists>n. js_div (Math_round (js_mul x 100)) 100 = cents n \<and> 100 * lo \<le> n \<and> n \<le> 100 * hi"
proof -
  from Math_round_bounds[OF times_100_bounds[OF assms]] obtain n where
    "Math_round (js_mul x 100) = of_int n" "100 * lo \<le> n" "n \<le> 100 * hi" by blast
  then show ?thesis by (auto simp: cents_def)
qed

lemma deduct_bounds:
  assumes "of_int lo \<le> r - p" "r - p \<le> of_int hi" "\<bar>lo\<bar> \<le> 2 ^ 46" "\<bar>hi\<bar> \<le> 2 ^ 46"
  shows "\<exists>n. deduct r p = cents n \<and> 100 * lo \<le> n \<and> n \<le> 100 * hi"
proof -
  have b: "\<bar>lo\<bar> \<le> 2 ^ 53" "\<bar>hi\<bar> \<le> 2 ^ 53" using assms(3,4) by simp_all
  have "of_int lo \<le> js_sub r p" "js_sub r p \<le> of_int hi"
    unfolding js_sub_def
    by (rule round_double_ge_int[OF assms(1) b(1)], rule round_double_le_int[OF assms(2) b(2)])
  from round2_bounds[OF this assms(3,4)] show ?thesis by (simp add: deduct_def)
qed

lemma payment_bounds:
  assumes "0 \<le> a" "a \<le> 100" "0 \<le> pool" "pool \<le> of_int hi" "hi \<le> 2 ^ 46"
  shows "\<exists>m. payment a pool = cents m \<and> 0 \<le> m \<and> m \<le> 100 * hi"
proof -
  define u where "u = js_div a 100"
  have hi0: "0 \<le> hi"
  proof -
    have "(of_int 0 :: rat) \<le> of_int hi" using assms(3,4) by simp
    then show ?thesis by (simp only: of_int_le_iff)
  qed
  have u: "0 \<le> u" "u \<le> 1"
  proof -
    show "0 \<le> u" unfolding u_def js_div_def using assms(1) by (intro round_double_nonneg) simp
    have "a / 100 \<le> of_int 1" using assms(2) by simp
    then have "round_double (a / 100) \<le> of_int 1" by (rule round_double_le_int) simp
    then show "u \<le> 1" by (simp add: u_def js_div_def)
  qed
  have "u * pool \<le> 1 * pool" using u(2) assms(3) by (rule mult_right_mono)
  then have up: "0 \<le> u * pool" "u * pool \<le> of_int hi" using u(1) assms(3,4) by simp_all
  have b: "\<bar>0 :: int\<bar> \<le> 2 ^ 53" "\<bar>hi\<bar> \<le> 2 ^ 53" using assms(5) hi0 by simp_all
  have "of_int 0 \<le> js_mul u pool" "js_mul u pool \<le> of_int hi"
    unfolding js_mul_def
    by (rule round_double_ge_int[OF _ b(1)], use up in simp, rule round_double_le_int[OF up(2) b(2)])
  from round2_bounds[OF this] hi0 assms(5) show ?thesis
    by (simp add: payment_def u_def)
qed

lemma payment_nonneg:
  assumes "0 \<le> a" "0 \<le> pool"
  shows "\<exists>m. payment a pool = cents m \<and> 0 \<le> m"
proof -
  have "0 \<le> js_div a 100" unfolding js_div_def using assms(1) by (intro round_double_nonneg) simp
  then have "0 \<le> js_mul (js_div a 100) pool"
    unfolding js_mul_def using assms(2) by (intro round_double_nonneg) simp
  then have v: "0 \<le> js_mul (js_mul (js_div a 100) pool) 100"
    unfolding js_mul_def by (intro round_double_nonneg) simp
  have "(0 :: int) \<le> \<lfloor>js_mul (js_mul (js_div a 100) pool) 100 + 1 / 2\<rfloor>"
    using v by (simp add: le_floor_iff)
  then show ?thesis by (auto simp: payment_def Math_round_def cents_def)
qed

lemma ratio_bounds: "0 \<le> AGENT_BUDGET_RATIO" "AGENT_BUDGET_RATIO \<le> 3 / 10"
  by (simp_all add: AGENT_BUDGET_RATIO_def rd_1)

lemma pool_bounds:
  assumes "0 \<le> b" "b \<le> 10 ^ 11"
  shows "\<exists>c. totalAgentBudget b = cents c \<and> 0 \<le> c \<and> c \<le> 10 ^ 13 \<and>
           0 \<le> totalAgentBudget b \<and> totalAgentBudget b \<le> 10 ^ 11"
proof -
  have "b * AGENT_BUDGET_RATIO \<le> b * 1"
    using ratio_bounds assms(1) by (intro mult_left_mono) simp_all
  then have x: "0 \<le> b * AGENT_BUDGET_RATIO" "b * AGENT_BUDGET_RATIO \<le> of_int (10 ^ 11)"
    using ratio_bounds(1) assms by simp_all
  have "of_int 0 \<le> js_mul b AGENT_BUDGET_RATIO" "js_mul b AGENT_BUDGET_RATIO \<le> of_int (10 ^ 11)"
    unfolding js_mul_def
    by (rule round_double_ge_int, use x in simp, simp, rule round_double_le_int[OF x(2)], simp)
  from round2_bounds[OF this] obtain c where
    c: "totalAgentBudget b = cents c" "0 \<le> c" "c \<le> 10 ^ 13"
    by (auto simp: totalAgentBudget_def)
  have "of_int c / 100 \<le> (of_int (10 ^ 11) :: rat)"
  proof -
    have "(of_int c :: rat) \<le> of_int (10 ^ 13)" using c(3) by (simp only: of_int_le_iff)
    then show ?thesis by simp
  qed
  then have "cents c \<le> of_int (10 ^ 11)"
    unfolding cents_eq by (rule round_double_le_int) simp
  with c cents_nonneg[OF c(2)] show ?thesis by auto
qed

section \<open>Balances as a replay of the payments\<close>

lemma map_filter_append: "List.map_filter f (xs @ ys) = List.map_filter f xs @ List.map_filter f ys"
  by (simp add: List.map_filter_def)

lemma map_filter_Nil: "List.map_filter f [] = []"
  by (simp add: List.map_filter_def)

lemma map_filter_single:
  "List.map_filter f [x] = (case f x of None \<Rightarrow> [] | Some y \<Rightarrow> [y])"
  by (simp add: List.map_filter_def split: option.splits)

lemma replay_Cons: "replay r ps = r # tl (replay r ps)"
  by (cases ps) simp_all

lemma replay_ne [simp]: "replay r ps \<noteq> []"
  by (cases ps) simp_all

lemma replay_append:
  "replay r (ps @ qs) = replay r ps @ tl (replay (last (replay r ps)) qs)"
proof (induction ps arbitrary: r)
  case Nil
  show ?case using replay_Cons[of r qs] by simp
next
  case (Cons p ps)
  from Cons[of "deduct r p"] show ?case by simp
qed

lemma affordable_append:
  "affordable r (ps @ qs) \<longleftrightarrow> affordable r ps \<and> affordable (last (replay r ps)) qs"
proof (induction ps arbitrary: r)
  case Nil
  show ?case by simp
next
  case (Cons p ps)
  from Cons[of "deduct r p"] show ?case by simp
qed

lemma run_steps_replay:
  "\<exists>ps. List.map_filter settled_payment (events (fst (run_steps env pool k steps st))) =
           List.map_filter settled_payment (events st) @ ps \<and>
         List.map_filter remaining_after (events (fst (run_steps env pool k steps st))) =
           List.map_filter remaining_after (events st) @ tl (replay (remainingBudget st) ps) \<and>
         remainingBudget (fst (run_steps env pool k steps st)) = last (replay (remainingBudget st) ps) \<and>
         affordable (remainingBudget st) ps \<and>
         set ps \<subseteq> (\<lambda>s. payment (allocation s) pool) ` set steps"
proof (induction steps arbitrary: k st)
  case Nil
  show ?case by (intro exI[of _ "[]"]) simp
next
  case (Cons s ss)
  let ?p = "payment (allocation s) pool"
  let ?st1 = "st\<lparr>events := events st @ [Step_start (agent s) (task s) (allocation s) ?p]\<rparr>"
  show ?case
  proof (cases "remainingBudget st < ?p")
    case True
    then show ?thesis by (intro exI[of _ "[]"]) simp
  next
    case False
    show ?thesis
    proof (cases "runSubAgent env k")
      case (Inl e)
      with False show ?thesis by (intro exI[of _ "[]"]) (simp add: Let_def map_filter_append map_filter_single)
    next
      case res: (Inr res)
      show ?thesis
      proof (cases "paySubAgent env k")
        case (Inl e)
        with False res show ?thesis by (intro exI[of _ "[]"]) (simp add: Let_def map_filter_append map_filter_single)
      next
        case (Inr txId)
        let ?left = "deduct (remainingBudget st) ?p"
        let ?st2 = "?st1\<lparr>remainingBudget := ?left,
            events := events ?st1 @ [Step_complete (agent s) (task s) ?p txId ?left],
            results := results ?st1 @ [(agent s, task s, res)]\<rparr>"
        have run: "run_steps env pool k (s # ss) st = run_steps env pool (Suc k) ss ?st2"
          using False res Inr by (simp add: Let_def)
        from Cons[of "Suc k" ?st2] obtain ps where ps:
          "List.map_filter settled_payment (events (fst (run_steps env pool (Suc k) ss ?st2))) =
             List.map_filter settled_payment (events ?st2) @ ps"
          "List.map_filter remaining_after (events (fst (run_steps env pool (Suc k) ss ?st2))) =
             List.map_filter remaining_after (events ?st2) @ tl (replay (remainingBudget ?st2) ps)"
          "remainingBudget (fst (run_steps env pool (Suc k) ss ?st2)) =
             last (replay (remainingBudget ?st2) ps)"
          "affordable (remainingBudget ?st2) ps"
          "set ps \<subseteq> (\<lambda>s. payment (allocation s) pool) ` set ss"
          by blast
        have r: "replay ?left ps = ?left # tl (replay ?left ps)" by (rule replay_Cons)
        show ?thesis
          unfolding run
          apply (intro exI[of _ "?p # ps"])
          using ps False r
          apply (simp add: map_filter_append map_filter_single)
          apply blast
          done
      qed
    qed
  qed
qed

lemma finish_main_observed:
  "List.map_filter settled_payment (fst (finish_main env b st)) =
     List.map_filter settled_payment (events st)"
  "List.map_filter remaining_after (fst (finish_main env b st)) =
     List.map_filter remaining_after (events st)"
  by (auto simp: finish_main_def map_filter_append List.map_filter_def split: sum.splits)

lemma main_balances:
  fixes env task_text b
  defines "evs \<equiv> fst (runMainAgent env task_text b)"
  shows "balances b evs = replay b (List.map_filter settled_payment evs)"
    and "affordable b (List.map_filter settled_payment evs)"
    and "planResponse env = Inr reply \<Longrightarrow> parse_steps task_text reply = Steps steps \<Longrightarrow>
         set (List.map_filter settled_payment evs) \<subseteq>
           (\<lambda>s. payment (allocation s) (totalAgentBudget b)) ` set steps"
proof -
  let ?st0 = "\<lparr>remainingBudget = b, results = [], events = []\<rparr> :: main_state"
  have loop: "balances b evs' = replay b (List.map_filter settled_payment evs') \<and>
      affordable b (List.map_filter settled_payment evs') \<and>
      set (List.map_filter settled_payment evs') \<subseteq>
        (\<lambda>s. payment (allocation s) (totalAgentBudget b)) ` set xs"
    if "evs' = (case run_steps env (totalAgentBudget b) 0 xs ?st0 of
          (st, Threw e) \<Rightarrow> events st | (st, _) \<Rightarrow> fst (finish_main env b st))" for evs' xs
  proof -
    obtain st' ex where run: "run_steps env (totalAgentBudget b) 0 xs ?st0 = (st', ex)"
      by (cases "run_steps env (totalAgentBudget b) 0 xs ?st0")
    from run_steps_replay[of env "totalAgentBudget b" 0 xs ?st0] run obtain ps where ps:
      "List.map_filter settled_payment (events st') = ps"
      "List.map_filter remaining_after (events st') = tl (replay b ps)"
      "affordable b ps" "set ps \<subseteq> (\<lambda>s. payment (allocation s) (totalAgentBudget b)) ` set xs"
      by (auto simp: map_filter_Nil)
    have obs: "List.map_filter settled_payment evs' = ps"
      "List.map_filter remaining_after evs' = tl (replay b ps)"
      using that run ps(1,2) by (cases ex; simp add: finish_main_observed)+
    have "balances b evs' = b # tl (replay b ps)" by (simp add: balances_def obs)
    also have "\<dots> = replay b ps" by (rule replay_Cons[symmetric])
    finally show ?thesis using ps(3,4) obs(1) by simp
  qed
  have cases: "evs = [] \<or> (\<exists>reply steps. planResponse env = Inr reply \<and>
      parse_steps task_text reply = Steps steps \<and>
      evs = (case run_steps env (totalAgentBudget b) 0 steps ?st0 of
          (st, Threw e) \<Rightarrow> events st | (st, _) \<Rightarrow> fst (finish_main env b st)))"
    unfolding evs_def
    by (auto simp: runMainAgent_def split: option.splits sum.splits steps_value.splits prod.splits
        loop_exit.splits)
  from cases show "balances b evs = replay b (List.map_filter settled_payment evs)"
  proof
    assume "evs = []"
    then show ?thesis by (simp add: balances_def map_filter_Nil)
  next
    assume "\<exists>reply steps. planResponse env = Inr reply \<and>
      parse_steps task_text reply = Steps steps \<and>
      evs = (case run_steps env (totalAgentBudget b) 0 steps ?st0 of
          (st, Threw e) \<Rightarrow> events st | (st, _) \<Rightarrow> fst (finish_main env b st))"
    then obtain xs where "evs = (case run_steps env (totalAgentBudget b) 0 xs ?st0 of
          (st, Threw e) \<Rightarrow> events st | (st, _) \<Rightarrow> fst (finish_main env b st))" by blast
    from loop[OF this] show ?thesis by blast
  qed
  from cases show "affordable b (List.map_filter settled_payment evs)"
  proof
    assume "evs = []"
    then show ?thesis by (simp add: map_filter_Nil)
  next
    assume "\<exists>reply steps. planResponse env = Inr reply \<and>
      parse_steps task_text reply = Steps steps \<and>
      evs = (case run_steps env (totalAgentBudget b) 0 steps ?st0 of
          (st, Threw e) \<Rightarrow> events st | (st, _) \<Rightarrow> fst (finish_main env b st))"
    then obtain xs where "evs = (case run_steps env (totalAgentBudget b) 0 xs ?st0 of
          (st, Threw e) \<Rightarrow> events st | (st, _) \<Rightarrow> fst (finish_main env b st))" by blast
    from loop[OF this] show ?thesis by blast
  qed
  show "set (List.map_filter settled_payment evs) \<subseteq>
      (\<lambda>s. payment (allocation s) (totalAgentBudget b)) ` set steps"
    if p: "planResponse env = Inr reply" "parse_steps task_text reply = Steps steps"
    using cases
  proof
    assume "evs = []"
    then show ?thesis by (simp add: map_filter_Nil)
  next
    assume "\<exists>reply steps. planResponse env = Inr reply \<and>
      parse_steps task_text reply = Steps steps \<and>
      evs = (case run_steps env (totalAgentBudget b) 0 steps ?st0 of
          (st, Threw e) \<Rightarrow> events st | (st, _) \<Rightarrow> fst (finish_main env b st))"
    with p have "evs = (case run_steps env (totalAgentBudget b) 0 steps ?st0 of
          (st, Threw e) \<Rightarrow> events st | (st, _) \<Rightarrow> fst (finish_main env b st))" by auto
    from loop[OF this] show ?thesis by blast
  qed
qed

lemma pay_settled_replay:
  "\<exists>ps. List.map_filter settled_payment (events (fst (pay_settled env pool xs st))) =
           List.map_filter settled_payment (events st) @ ps \<and>
         List.map_filter remaining_after (events (fst (pay_settled env pool xs st))) =
           List.map_filter remaining_after (events st) @ tl (replay (remainingBudget st) ps) \<and>
         remainingBudget (fst (pay_settled env pool xs st)) = last (replay (remainingBudget st) ps) \<and>
         set ps \<subseteq> range (pay pool) \<and> length ps \<le> length xs"
proof (induction xs arbitrary: st)
  case Nil
  show ?case by (intro exI[of _ "[]"]) simp
next
  case (Cons x xs)
  obtain c w where x: "x = (c, w)" by (cases x)
  show ?case
  proof (cases "paySubAgent env c")
    case (Inl e)
    then show ?thesis by (intro exI[of _ "[]"]) (simp add: x)
  next
    case (Inr txId)
    let ?left = "deduct (remainingBudget st) (pay pool c)"
    let ?st = "st\<lparr>remainingBudget := ?left,
        events := events st @ [Agent_complete (agent_name c) (agent_key c) w txId (pay pool c) ?left]\<rparr>"
    have run: "pay_settled env pool (x # xs) st = pay_settled env pool xs ?st"
      by (simp add: x Inr Let_def)
    from Cons[of ?st] obtain ps where ps:
      "List.map_filter settled_payment (events (fst (pay_settled env pool xs ?st))) =
         List.map_filter settled_payment (events ?st) @ ps"
      "List.map_filter remaining_after (events (fst (pay_settled env pool xs ?st))) =
         List.map_filter remaining_after (events ?st) @ tl (replay (remainingBudget ?st) ps)"
      "remainingBudget (fst (pay_settled env pool xs ?st)) = last (replay (remainingBudget ?st) ps)"
      "set ps \<subseteq> range (pay pool)" "length ps \<le> length xs"
      by blast
    have r: "replay ?left ps = ?left # tl (replay ?left ps)" by (rule replay_Cons)
    show ?thesis
      unfolding run
      apply (intro exI[of _ "pay pool c # ps"])
      using ps r
      apply (simp add: map_filter_append map_filter_single)
      done
  qed
qed

lemma record_settled_observed:
  "List.map_filter settled_payment (events (record_settled xs st)) =
     List.map_filter settled_payment (events st)"
  "List.map_filter remaining_after (events (record_settled xs st)) =
     List.map_filter remaining_after (events st)"
  by (induction xs st rule: record_settled.induct)
     (simp_all add: map_filter_append map_filter_single)

lemma starts_observed:
  "List.map_filter settled_payment
     (map (\<lambda>(a, r). Agent_start (agent_name a) (AGENT_ALLOCATIONS a) (pay pool a)) xs) = []"
  "List.map_filter remaining_after
     (map (\<lambda>(a, r). Agent_start (agent_name a) (AGENT_ALLOCATIONS a) (pay pool a)) xs) = []"
  by (induction xs) (auto simp: List.map_filter_def)

lemma run_phase2_replay:
  "\<exists>ps. List.map_filter settled_payment (events (fst (run_phase2 env pool st))) =
           List.map_filter settled_payment (events st) @ ps \<and>
         List.map_filter remaining_after (events (fst (run_phase2 env pool st))) =
           List.map_filter remaining_after (events st) @ tl (replay (remainingBudget st) ps) \<and>
         remainingBudget (fst (run_phase2 env pool st)) = last (replay (remainingBudget st) ps) \<and>
         set ps \<subseteq> range (pay pool) \<and> length ps \<le> 3"
proof -
  let ?st1 = "st\<lparr>events := events st @
      map (\<lambda>(a, r). Agent_start (agent_name a) (AGENT_ALLOCATIONS a) (pay pool a)) (phase2 env)\<rparr>"
  let ?st2 = "record_settled (phase2 env) ?st1"
  let ?xs = "sort_key (\<lambda>(c, v). payLatency env c) (fulfilled (phase2 env))"
  have len: "length ?xs \<le> 3"
  proof -
    have "length (fulfilled ys) \<le> length ys" for ys :: "(agent_id \<times> (js_error + string)) list"
      by (induction ys rule: fulfilled.induct) simp_all
    from this[of "phase2 env"] show ?thesis by (simp add: phase2_def)
  qed
  from pay_settled_replay[of env pool ?xs ?st2] obtain ps where ps:
    "List.map_filter settled_payment (events (fst (pay_settled env pool ?xs ?st2))) =
       List.map_filter settled_payment (events ?st2) @ ps"
    "List.map_filter remaining_after (events (fst (pay_settled env pool ?xs ?st2))) =
       List.map_filter remaining_after (events ?st2) @ tl (replay (remainingBudget ?st2) ps)"
    "remainingBudget (fst (pay_settled env pool ?xs ?st2)) = last (replay (remainingBudget ?st2) ps)"
    "set ps \<subseteq> range (pay pool)" "length ps \<le> length ?xs"
    by blast
  show ?thesis
    apply (intro exI[of _ ps])
    using ps len
    apply (simp add: run_phase2_def Let_def record_settled_observed map_filter_append starts_observed)
    done
qed

lemma phase1_replay:
  "\<exists>ps. List.map_filter settled_payment (events (fst (phase1 env pool st))) =
           List.map_filter settled_payment (events st) @ ps \<and>
         List.map_filter remaining_after (events (fst (phase1 env pool st))) =
           List.map_filter remaining_after (events st) @ tl (replay (remainingBudget st) ps) \<and>
         remainingBudget (fst (phase1 env pool st)) = last (replay (remainingBudget st) ps) \<and>
         set ps \<subseteq> range (pay pool) \<and> length ps \<le> 1"
proof (cases "paySubAgent env Code_Reader")
  case (Inl e)
  then show ?thesis
    by (intro exI[of _ "[]"]; cases "runCodeReaderAgent env")
       (simp_all add: phase1_def Let_def map_filter_append map_filter_single)
next
  case (Inr txId)
  then show ?thesis
    by (intro exI[of _ "[pay pool Code_Reader]"]; cases "runCodeReaderAgent env")
       (simp_all add: phase1_def Let_def map_filter_append map_filter_single)
qed

lemma finish_codebase_observed:
  "List.map_filter settled_payment (fst (finish_codebase env b st)) =
     List.map_filter settled_payment (events st)"
  "List.map_filter remaining_after (fst (finish_codebase env b st)) =
     List.map_filter remaining_after (events st)"
  by (auto simp: finish_codebase_def Let_def map_filter_append List.map_filter_def
      split: sum.splits option.splits)

lemma codebase_balances:
  fixes env b
  defines "evs \<equiv> fst (runCodebaseAnalysis env b)"
  shows "balances b evs = replay b (List.map_filter settled_payment evs)"
    and "set (List.map_filter settled_payment evs) \<subseteq> range (pay (totalAgentBudget b))"
    and "length (List.map_filter settled_payment evs) \<le> 4"
proof -
  let ?P = "totalAgentBudget b"
  let ?st0 = "\<lparr>remainingBudget = b, results = [], events = []\<rparr> :: codebase_state"
  obtain st1 e1 where p1: "phase1 env ?P ?st0 = (st1, e1)" by (cases "phase1 env ?P ?st0")
  obtain st2 e2 where p2: "run_phase2 env ?P st1 = (st2, e2)" by (cases "run_phase2 env ?P st1")
  from phase1_replay[of env ?P ?st0] p1 obtain ps1 where ps1:
    "List.map_filter settled_payment (events st1) = ps1"
    "List.map_filter remaining_after (events st1) = tl (replay b ps1)"
    "remainingBudget st1 = last (replay b ps1)"
    "set ps1 \<subseteq> range (pay ?P)" "length ps1 \<le> 1"
    by (auto simp: map_filter_Nil)
  from run_phase2_replay[of env ?P st1] p2 obtain ps2 where ps2:
    "List.map_filter settled_payment (events st2) = ps1 @ ps2"
    "List.map_filter remaining_after (events st2) =
       tl (replay b ps1) @ tl (replay (last (replay b ps1)) ps2)"
    "set ps2 \<subseteq> range (pay ?P)" "length ps2 \<le> 3"
    using ps1 by auto
  have b1: "b # tl (replay b ps1) = replay b ps1" by (rule replay_Cons[symmetric])
  have b2: "b # tl (replay b ps1) @ tl (replay (last (replay b ps1)) ps2) = replay b (ps1 @ ps2)"
    using b1 by (simp add: replay_append)
  have cases: "evs = [] \<or> evs = events st1 \<or> evs = events st2 \<or> evs = fst (finish_codebase env b st2)"
    unfolding evs_def using p1 p2
    by (auto simp: runCodebaseAnalysis_def split: option.splits sum.splits)
  have all: "balances b evs = replay b (List.map_filter settled_payment evs) \<and>
      set (List.map_filter settled_payment evs) \<subseteq> range (pay ?P) \<and>
      length (List.map_filter settled_payment evs) \<le> 4"
    using cases ps1 ps2 b1 b2
    by (elim disjE) (simp_all add: balances_def map_filter_Nil finish_codebase_observed)
  from all show "balances b evs = replay b (List.map_filter settled_payment evs)"
    and "set (List.map_filter settled_payment evs) \<subseteq> range (pay (totalAgentBudget b))"
    and "length (List.map_filter settled_payment evs) \<le> 4"
    by simp_all
qed

lemma last_replay_append: "last (replay r (ps @ qs)) = last (replay (last (replay r ps)) qs)"
  by (induction ps arbitrary: r) simp_all

lemma main_refunded:
  assumes "snd (runMainAgent env task_text b) = Inr out"
  shows "refunded out = last (balances b (fst (runMainAgent env task_text b)))"
proof -
  let ?st0 = "\<lparr>remainingBudget = b, results = [], events = []\<rparr> :: main_state"
  from assms obtain xs where xs:
    "runMainAgent env task_text b =
       (case run_steps env (totalAgentBudget b) 0 xs ?st0 of
          (st, Threw e) \<Rightarrow> (events st, Inl e) | (st, _) \<Rightarrow> finish_main env b st)"
    by (auto simp: runMainAgent_def split: option.splits sum.splits steps_value.splits)
  obtain st' ex where run: "run_steps env (totalAgentBudget b) 0 xs ?st0 = (st', ex)"
    by (cases "run_steps env (totalAgentBudget b) 0 xs ?st0")
  from run_steps_replay[of env "totalAgentBudget b" 0 xs ?st0] run obtain ps where ps:
    "List.map_filter remaining_after (events st') = tl (replay b ps)"
    "remainingBudget st' = last (replay b ps)"
    by (auto simp: map_filter_Nil)
  have fin: "runMainAgent env task_text b = finish_main env b st'"
    using xs run assms by (cases ex) simp_all
  have "refunded out = remainingBudget st'"
    using assms unfolding fin by (auto simp: finish_main_def split: sum.splits)
  moreover have "balances b (fst (finish_main env b st')) = replay b ps"
    using replay_Cons[of b ps] by (simp add: balances_def finish_main_observed ps(1))
  ultimately show ?thesis by (simp add: fin ps(2))
qed

lemma codebase_refunded:
  assumes "snd (runCodebaseAnalysis env b) = Inr out"
  shows "refunded out = last (balances b (fst (runCodebaseAnalysis env b)))"
proof -
  let ?P = "totalAgentBudget b"
  let ?st0 = "\<lparr>remainingBudget = b, results = [], events = []\<rparr> :: codebase_state"
  obtain st1 e1 where p1: "phase1 env ?P ?st0 = (st1, e1)" by (cases "phase1 env ?P ?st0")
  obtain st2 e2 where p2: "run_phase2 env ?P st1 = (st2, e2)" by (cases "run_phase2 env ?P st1")
  from phase1_replay[of env ?P ?st0] p1 obtain ps1 where ps1:
    "List.map_filter remaining_after (events st1) = tl (replay b ps1)"
    "remainingBudget st1 = last (replay b ps1)"
    by (auto simp: map_filter_Nil)
  from run_phase2_replay[of env ?P st1] p2 obtain ps2 where ps2:
    "List.map_filter remaining_after (events st2) =
       tl (replay b ps1) @ tl (replay (last (replay b ps1)) ps2)"
    "remainingBudget st2 = last (replay (last (replay b ps1)) ps2)"
    using ps1 by auto
  have fin: "runCodebaseAnalysis env b = finish_codebase env b st2"
    using assms p1 p2
    by (auto simp: runCodebaseAnalysis_def split: option.splits sum.splits)
  have "refunded out = remainingBudget st2"
    using assms unfolding fin
    by (auto simp: finish_codebase_def Let_def split: sum.splits option.splits if_splits)
  moreover have "balances b (fst (finish_codebase env b st2)) = replay b (ps1 @ ps2)"
    using replay_Cons[of b ps1] by (simp add: balances_def finish_codebase_observed ps2(1) replay_append)
  moreover have "last (replay b (ps1 @ ps2)) = last (replay (last (replay b ps1)) ps2)"
    by (rule last_replay_append)
  ultimately show ?thesis by (simp add: fin ps2(2))
qed

section \<open>Monotonicity of the balance\<close>

lemma sorted_replay_Cons:
  assumes "sorted_wrt (\<ge>) (replay r ps)" "r \<le> y"
  shows "sorted_wrt (\<ge>) (y # replay r ps)"
proof -
  obtain xs where xs: "replay r ps = r # xs" using replay_Cons by blast
  with assms show ?thesis by auto
qed

lemma replay_sorted_affordable:
  assumes "\<forall>p\<in>set ps. \<exists>m. p = cents m \<and> 0 \<le> m" "affordable (cents n) ps"
    and "0 \<le> n" "n \<le> 2 ^ 47 - 1"
  shows "sorted_wrt (\<ge>) (replay (cents n) ps)"
  using assms
proof (induction ps arbitrary: n)
  case Nil
  show ?case by simp
next
  case (Cons p ps)
  from Cons.prems(1) obtain m where m: "p = cents m" "0 \<le> m" by auto
  have rest: "\<forall>p\<in>set ps. \<exists>m. p = cents m \<and> 0 \<le> m" using Cons.prems(1) by simp
  from Cons.prems(2) have le: "cents m \<le> cents n" and aff: "affordable (deduct (cents n) p) ps"
    by (simp_all add: m(1))
  have n1: "\<bar>n\<bar> \<le> 2 ^ 47 - 1" using Cons.prems(3,4) by linarith
  have mn: "m \<le> n" using le n1 by (rule cents_less_imp)
  have n2: "\<bar>n\<bar> \<le> 2 ^ 47" "\<bar>m\<bar> \<le> 2 ^ 47" using n1 mn m(2) by linarith+
  have d: "deduct (cents n) p = cents (n - m)"
    unfolding m(1) using n2 by (rule deduct_cents)
  have "0 \<le> n - m" "n - m \<le> 2 ^ 47 - 1" using mn m(2) Cons.prems(4) by linarith+
  with rest aff have "sorted_wrt (\<ge>) (replay (cents (n - m)) ps)"
    unfolding d by (rule Cons.IH)
  moreover have "n - m \<le> n" using m(2) by simp
  then have "cents (n - m) \<le> cents n" by (rule cents_mono)
  ultimately have "sorted_wrt (\<ge>) (cents n # replay (cents (n - m)) ps)"
    by (rule sorted_replay_Cons)
  then show ?case by (simp only: replay.simps d)
qed

lemma replay_sorted_bounded:
  assumes "\<forall>p\<in>set ps. \<exists>m. p = cents m \<and> 0 \<le> m \<and> m \<le> M"
    and "\<bar>n\<bar> + int (length ps) * M \<le> 2 ^ 47" "0 \<le> M"
  shows "sorted_wrt (\<ge>) (replay (cents n) ps)"
  using assms
proof (induction ps arbitrary: n)
  case Nil
  show ?case by simp
next
  case (Cons p ps)
  from Cons.prems(1) obtain m where m: "p = cents m" "0 \<le> m" "m \<le> M" by auto
  have rest: "\<forall>p\<in>set ps. \<exists>m. p = cents m \<and> 0 \<le> m \<and> m \<le> M"
    using Cons.prems(1) by simp
  define K where "K = int (length ps) * M"
  have k: "0 \<le> K" unfolding K_def using Cons.prems(3) by simp
  have len: "int (length (p # ps)) * M = M + K" by (simp add: K_def algebra_simps)
  have b: "\<bar>n\<bar> + (M + K) \<le> 2 ^ 47" using Cons.prems(2) unfolding len by simp
  have n2: "\<bar>n\<bar> \<le> 2 ^ 47" "\<bar>m\<bar> \<le> 2 ^ 47" using b k m(2,3) by linarith+
  have d: "deduct (cents n) p = cents (n - m)"
    unfolding m(1) using n2 by (rule deduct_cents)
  have "\<bar>n - m\<bar> + K \<le> 2 ^ 47" using b m(2,3) by linarith
  then have "\<bar>n - m\<bar> + int (length ps) * M \<le> 2 ^ 47" by (simp only: K_def)
  with rest have "sorted_wrt (\<ge>) (replay (cents (n - m)) ps)"
    using Cons.prems(3) by (rule Cons.IH)
  moreover have "n - m \<le> n" using m(2) by simp
  then have "cents (n - m) \<le> cents n" by (rule cents_mono)
  ultimately have "sorted_wrt (\<ge>) (cents n # replay (cents (n - m)) ps)"
    by (rule sorted_replay_Cons)
  then show ?case by (simp only: replay.simps d)
qed

lemma cents_le_int:
  assumes "m \<le> 100 * hi" "\<bar>hi\<bar> \<le> 2 ^ 53"
  shows "cents m \<le> of_int hi"
proof -
  have "(of_int m :: rat) \<le> of_int (100 * hi)" using assms(1) by (simp only: of_int_le_iff)
  then have "of_int m / 100 \<le> (of_int hi :: rat)" by simp
  then show ?thesis unfolding cents_eq using assms(2) by (rule round_double_le_int)
qed

lemma replay_tl_sorted_affordable:
  assumes "0 \<le> b" "b \<le> 10 ^ 11"
    and "\<forall>p\<in>set ps. \<exists>m. p = cents m \<and> 0 \<le> m" "affordable b ps"
  shows "sorted_wrt (\<ge>) (tl (replay b ps))"
proof (cases ps)
  case Nil
  then show ?thesis by simp
next
  case (Cons p qs)
  from assms(3) Cons obtain m where m: "p = cents m" "0 \<le> m" by auto
  have rest: "\<forall>p\<in>set qs. \<exists>m. p = cents m \<and> 0 \<le> m" using assms(3) Cons by simp
  have p0: "0 \<le> p" unfolding m(1) using m(2) by (rule cents_nonneg)
  from assms(4) Cons have pb: "p \<le> b" and aff: "affordable (deduct b p) qs" by simp_all
  have lo: "of_int 0 \<le> b - p" using pb by simp
  have hi: "b - p \<le> of_int 100000000000" using p0 assms(2) by simp
  have "\<exists>n. deduct b p = cents n \<and> 100 * 0 \<le> n \<and> n \<le> 100 * 100000000000"
    using lo hi by (rule deduct_bounds) simp_all
  then obtain n where n: "deduct b p = cents n" "0 \<le> n" "n \<le> 10000000000000" by auto
  have n47: "n \<le> 2 ^ 47 - 1" using n(3) by simp
  have "sorted_wrt (\<ge>) (replay (cents n) qs)"
    using rest aff[unfolded n(1)] n(2) n47 by (rule replay_sorted_affordable)
  then show ?thesis by (simp add: Cons n(1))
qed

lemma replay_tl_sorted_bounded:
  assumes "0 \<le> b" "b \<le> 10 ^ 11"
    and "\<forall>p\<in>set ps. \<exists>m. p = cents m \<and> 0 \<le> m \<and> m \<le> 10 ^ 13" "length ps \<le> 4"
  shows "sorted_wrt (\<ge>) (tl (replay b ps))"
proof (cases ps)
  case Nil
  then show ?thesis by simp
next
  case (Cons p qs)
  from assms(3) Cons obtain m where m: "p = cents m" "0 \<le> m" "m \<le> 10000000000000" by auto
  have qs: "\<forall>p\<in>set qs. \<exists>m. p = cents m \<and> 0 \<le> m \<and> m \<le> 10000000000000"
    using assms(3) Cons by simp
  have p0: "0 \<le> p" unfolding m(1) using m(2) by (rule cents_nonneg)
  have "m \<le> 100 * 100000000000" using m(3) by simp
  then have p1: "p \<le> of_int 100000000000" unfolding m(1) by (rule cents_le_int) simp
  have lo: "of_int (- 100000000000) \<le> b - p" using p1 assms(1) by simp
  have hi: "b - p \<le> of_int 100000000000" using p0 assms(2) by simp
  have "\<exists>n. deduct b p = cents n \<and> 100 * (- 100000000000) \<le> n \<and> n \<le> 100 * 100000000000"
    using lo hi by (rule deduct_bounds) simp_all
  then obtain n where
    n: "deduct b p = cents n" "- 10000000000000 \<le> n" "n \<le> 10000000000000" by auto
  have "int (length qs) \<le> 3" using assms(4) Cons by simp
  then have "int (length qs) * 10000000000000 \<le> 3 * 10000000000000"
    by (rule mult_right_mono) simp
  then have bound: "\<bar>n\<bar> + int (length qs) * 10000000000000 \<le> 2 ^ 47" using n(2,3) by simp
  have "sorted_wrt (\<ge>) (replay (cents n) qs)"
    by (rule replay_sorted_bounded[OF qs bound]) simp
  then show ?thesis by (simp add: Cons n(1))
qed

lemma main_payments_cents:
  assumes "0 \<le> b" "b \<le> 10 ^ 11" "\<forall>s\<in>set steps. 0 \<le> allocation s"
    and "set ps \<subseteq> (\<lambda>s. payment (allocation s) (totalAgentBudget b)) ` set steps"
  shows "\<forall>p\<in>set ps. \<exists>m. p = cents m \<and> 0 \<le> m"
proof
  fix p assume "p \<in> set ps"
  with assms(4) obtain s where s: "s \<in> set steps" "p = payment (allocation s) (totalAgentBudget b)"
    by auto
  from pool_bounds[OF assms(1,2)] have "0 \<le> totalAgentBudget b" by blast
  with payment_nonneg[of "allocation s" "totalAgentBudget b"] s assms(3)
  show "\<exists>m. p = cents m \<and> 0 \<le> m" by auto
qed

lemma codebase_payments_cents:
  assumes "0 \<le> b" "b \<le> 10 ^ 11" "set ps \<subseteq> range (pay (totalAgentBudget b))"
  shows "\<forall>p\<in>set ps. \<exists>m. p = cents m \<and> 0 \<le> m \<and> m \<le> 10 ^ 13"
proof
  fix p assume "p \<in> set ps"
  with assms(3) obtain a where a: "p = pay (totalAgentBudget b) a" by auto
  from pool_bounds[OF assms(1,2)] have
    P: "0 \<le> totalAgentBudget b" "totalAgentBudget b \<le> of_int (10 ^ 11)" by auto
  have al: "0 \<le> AGENT_ALLOCATIONS a" "AGENT_ALLOCATIONS a \<le> 100" by (cases a; simp)+
  from payment_bounds[OF al P] show "\<exists>m. p = cents m \<and> 0 \<le> m \<and> m \<le> 10 ^ 13"
    by (auto simp: a pay_def)
qed


section \<open>The balance along a run\<close>

lemma cents_100: "cents 100 = 1"
proof -
  have "round_double (of_int 1) = of_int 1" by (rule round_double_of_int) simp
  then show ?thesis by (simp add: cents_eq)
qed

lemma cents_budget_range:
  assumes "0 \<le> cents n" "cents n \<le> 10 ^ 11"
  shows "0 \<le> n" "n \<le> 2 ^ 47 - 1" "\<bar>n\<bar> \<le> 10000000000000"
proof -
  show n0: "0 \<le> n"
  proof (rule ccontr)
    assume "\<not> 0 \<le> n"
    then have "n \<le> - 1" by simp
    then have "cents n \<le> cents (- 1)" by (rule cents_mono)
    moreover have "cents (- 1) < cents (- 1 + 1)" by (rule cents_succ_less) simp
    ultimately show False using assms(1) by simp
  qed
  have "round_double (of_int 100000000000) = of_int 100000000000"
    by (rule round_double_of_int) simp
  then have "cents 10000000000000 = 100000000000" by (simp add: cents_eq)
  with assms(2) have "cents n \<le> cents 10000000000000" by simp
  then have le: "n \<le> 10000000000000" by (rule cents_less_imp) simp
  then show "n \<le> 2 ^ 47 - 1" by simp
  from n0 le show "\<bar>n\<bar> \<le> 10000000000000" by simp
qed

text \<open>
  C8, as stated, fails. With a budget of 0.006 the agent pool rounds to 0, every payment
  of \<open>runCodebaseAnalysis\<close> is 0, and the first settlement rounds the balance to
  hundredths: it rises from 0.006 to 0.01 and stays there. Nor does the refund zero the
  variable: the run returns \<open>refunded = 0.01\<close>, the value after the last settlement.
\<close>

theorem first_settlement_raises_balance:
  "balances sub_cent_budget (fst (runCodebaseAnalysis codebase_ok sub_cent_budget)) =
     [sub_cent_budget, cents 1, cents 1, cents 1, cents 1] \<and>
   sub_cent_budget < cents 1 \<and> 0 < sub_cent_budget \<and>
   map_sum id refunded (snd (runCodebaseAnalysis codebase_ok sub_cent_budget)) = Inr (cents 1)"
  by (simp add: run_codebase_sub_cent balances_def List.map_filter_def less_sub_c1 positive_sub)

text \<open>
  C8, amended. In both orchestrators, for a budget between 0 and \<open>10\<^sup>1\<^sup>1\<close> (and, in
  \<open>runMainAgent\<close>, a plan without negative allocations), the balances reported by the
  settlement events are the budget with the settled payments deducted one after the
  other, one deduction for each settled step; from the first settlement on they never
  increase, and they never exceed the budget either when the budget is a whole number of
  hundredths. The refund does not change the variable: a run that returns reports the
  last of these balances as \<open>refunded\<close>.
\<close>

theorem balance_never_increases_after_first_settlement:
  "(0 \<le> b \<and> b \<le> 10 ^ 11 \<and> planResponse env = Inr reply \<and>
    parse_steps task_text reply = Steps steps \<and> (\<forall>s \<in> set steps. 0 \<le> allocation s) \<longrightarrow>
      balances b (fst (runMainAgent env task_text b)) =
        replay b (List.map_filter settled_payment (fst (runMainAgent env task_text b))) \<and>
      sorted_wrt (\<ge>) (tl (balances b (fst (runMainAgent env task_text b)))) \<and>
      ((\<exists>n. b = cents n) \<longrightarrow> sorted_wrt (\<ge>) (balances b (fst (runMainAgent env task_text b)))) \<and>
      (\<forall>out. snd (runMainAgent env task_text b) = Inr out \<longrightarrow>
         refunded out = last (balances b (fst (runMainAgent env task_text b))))) \<and>
   (0 \<le> b' \<and> b' \<le> 10 ^ 11 \<longrightarrow>
      balances b' (fst (runCodebaseAnalysis env' b')) =
        replay b' (List.map_filter settled_payment (fst (runCodebaseAnalysis env' b'))) \<and>
      sorted_wrt (\<ge>) (tl (balances b' (fst (runCodebaseAnalysis env' b')))) \<and>
      ((\<exists>n. b' = cents n) \<longrightarrow> sorted_wrt (\<ge>) (balances b' (fst (runCodebaseAnalysis env' b')))) \<and>
      (\<forall>out. snd (runCodebaseAnalysis env' b') = Inr out \<longrightarrow>
         refunded out = last (balances b' (fst (runCodebaseAnalysis env' b')))))"
proof (intro conjI impI allI)
  let ?evs = "fst (runMainAgent env task_text b)"
  let ?ps = "List.map_filter settled_payment ?evs"
  assume h: "0 \<le> b \<and> b \<le> 10 ^ 11 \<and> planResponse env = Inr reply \<and>
    parse_steps task_text reply = Steps steps \<and> (\<forall>s \<in> set steps. 0 \<le> allocation s)"
  then have b: "0 \<le> b" "b \<le> 10 ^ 11" and plan: "planResponse env = Inr reply"
    "parse_steps task_text reply = Steps steps" and al: "\<forall>s \<in> set steps. 0 \<le> allocation s"
    by simp_all
  show eq: "balances b ?evs = replay b ?ps" by (rule main_balances(1))
  have aff: "affordable b ?ps" by (rule main_balances(2))
  have ps: "\<forall>p\<in>set ?ps. \<exists>m. p = cents m \<and> 0 \<le> m"
    using b al main_balances(3)[OF plan] by (rule main_payments_cents)
  show "sorted_wrt (\<ge>) (tl (balances b ?evs))"
    unfolding eq using b ps aff by (rule replay_tl_sorted_affordable)
  show "sorted_wrt (\<ge>) (balances b ?evs)" if "\<exists>n. b = cents n"
  proof -
    from that obtain n where n: "b = cents n" by blast
    from b have "0 \<le> n" "n \<le> 2 ^ 47 - 1" unfolding n by (rule cents_budget_range)+
    with ps aff[unfolded n] show ?thesis
      unfolding eq unfolding n by (rule replay_sorted_affordable)
  qed
  show "refunded out = last (balances b ?evs)"
    if "snd (runMainAgent env task_text b) = Inr out" for out
    using that by (rule main_refunded)
next
  let ?evs = "fst (runCodebaseAnalysis env' b')"
  let ?ps = "List.map_filter settled_payment ?evs"
  assume h: "0 \<le> b' \<and> b' \<le> 10 ^ 11"
  then have b: "0 \<le> b'" "b' \<le> 10 ^ 11" by simp_all
  show eq: "balances b' ?evs = replay b' ?ps" by (rule codebase_balances(1))
  have len: "length ?ps \<le> 4" by (rule codebase_balances(3))
  have ps: "\<forall>p\<in>set ?ps. \<exists>m. p = cents m \<and> 0 \<le> m \<and> m \<le> 10 ^ 13"
    using b codebase_balances(2) by (rule codebase_payments_cents)
  show "sorted_wrt (\<ge>) (tl (balances b' ?evs))"
    unfolding eq using b ps len by (rule replay_tl_sorted_bounded)
  show "sorted_wrt (\<ge>) (balances b' ?evs)" if "\<exists>n. b' = cents n"
  proof -
    from that obtain n where n: "b' = cents n" by blast
    from b have n1: "\<bar>n\<bar> \<le> 10000000000000" unfolding n by (rule cents_budget_range(3))
    have "int (length ?ps) \<le> 4" using len by simp
    then have "int (length ?ps) * 10000000000000 \<le> 4 * 10000000000000"
      by (rule mult_right_mono) simp
    with n1 have bound: "\<bar>n\<bar> + int (length ?ps) * 10000000000000 \<le> 2 ^ 47" by simp
    have ps': "\<forall>p\<in>set ?ps. \<exists>m. p = cents m \<and> 0 \<le> m \<and> m \<le> 10000000000000"
      using ps by simp
    have "sorted_wrt (\<ge>) (replay (cents n) ?ps)"
      by (rule replay_sorted_bounded[OF ps' bound]) simp
    then show ?thesis unfolding eq by (simp only: n[symmetric])
  qed
  show "refunded out = last (balances b' ?evs)"
    if "snd (runCodebaseAnalysis env' b') = Inr out" for out
    using that by (rule codebase_refunded)
qed

theorem balance_never_increases_after_first_settlement_witness:
  "sorted_wrt (\<ge>) (balances 1 (fst (runMainAgent main_ok ''demo'' 1))) \<and>
   last (balances 1 (fst (runMainAgent main_ok ''demo'' 1))) = cents 69 \<and>
   sorted_wrt (\<ge>) (balances 1 (fst (runCodebaseAnalysis codebase_ok 1))) \<and>
   last (balances 1 (fst (runCodebaseAnalysis codebase_ok 1))) = cents 69"
proof -
  note T = balance_never_increases_after_first_settlement[where b = 1 and env = main_ok
      and reply = Invalid_JSON and task_text = "''demo''" and steps = "default_steps ''demo''"
      and b' = 1 and env' = codebase_ok]
  have h: "0 \<le> (1 :: rat) \<and> (1 :: rat) \<le> 10 ^ 11 \<and> planResponse main_ok = Inr Invalid_JSON \<and>
      parse_steps ''demo'' Invalid_JSON = Steps (default_steps ''demo'') \<and>
      (\<forall>s \<in> set (default_steps ''demo''). 0 \<le> allocation s)"
    by (simp add: main_ok_def default_steps_def)
  have h': "0 \<le> (1 :: rat) \<and> (1 :: rat) \<le> 10 ^ 11" by simp
  have c: "\<exists>n. (1 :: rat) = cents n" using cents_100 by (intro exI[of _ 100]) simp
  from T[THEN conjunct1] h have m:
    "(\<exists>n. (1 :: rat) = cents n) \<longrightarrow> sorted_wrt (\<ge>) (balances 1 (fst (runMainAgent main_ok ''demo'' 1)))"
    "\<forall>out. snd (runMainAgent main_ok ''demo'' 1) = Inr out \<longrightarrow>
       refunded out = last (balances 1 (fst (runMainAgent main_ok ''demo'' 1)))"
    by blast+
  from T[THEN conjunct2] h' have k:
    "(\<exists>n. (1 :: rat) = cents n) \<longrightarrow> sorted_wrt (\<ge>) (balances 1 (fst (runCodebaseAnalysis codebase_ok 1)))"
    "\<forall>out. snd (runCodebaseAnalysis codebase_ok 1) = Inr out \<longrightarrow>
       refunded out = last (balances 1 (fst (runCodebaseAnalysis codebase_ok 1)))"
    by blast+
  from m(1) c have 1: "sorted_wrt (\<ge>) (balances 1 (fst (runMainAgent main_ok ''demo'' 1)))" by blast
  from k(1) c have 3: "sorted_wrt (\<ge>) (balances 1 (fst (runCodebaseAnalysis codebase_ok 1)))" by blast
  obtain out where out: "snd (runMainAgent main_ok ''demo'' 1) = Inr out" "refunded out = cents 69"
    by (simp add: run_main_ok)
  from m(2) out have 2: "last (balances 1 (fst (runMainAgent main_ok ''demo'' 1))) = cents 69"
    by metis
  obtain out' where out': "snd (runCodebaseAnalysis codebase_ok 1) = Inr out'" "refunded out' = cents 69"
    by (simp add: run_codebase_ok)
  from k(2) out' have 4: "last (balances 1 (fst (runCodebaseAnalysis codebase_ok 1))) = cents 69"
    by metis
  from 1 2 3 4 show ?thesis by blast
qed

section \<open>The payments against the budget\<close>

lemma pool_as_cents: "totalAgentBudget b = cents (pool_cents b)"
  by (simp add: totalAgentBudget_def pool_cents_def cents_def Math_round_def)

lemma payment_as_cents: "payment a pool = cents (payment_cents a pool)"
  by (simp add: payment_def payment_cents_def cents_def Math_round_def)

lemma round_double_above:
  assumes "0 \<le> x"
  shows "round_double x \<le> x * (1 + 1 / 2 ^ 53) + 1 / 2 ^ 1075"
proof -
  have "\<bar>round_double x - x\<bar> \<le> \<bar>x\<bar> / 2 ^ 53 + 1 / 2 ^ 1075" by (rule round_double_error)
  then have "round_double x \<le> x + x / 2 ^ 53 + 1 / 2 ^ 1075" using assms by linarith
  then show ?thesis by (simp add: algebra_simps)
qed

lemma payment_cents_nonneg:
  assumes "0 \<le> a" "0 \<le> pool"
  shows "0 \<le> payment_cents a pool"
proof -
  have "0 \<le> js_div a 100" unfolding js_div_def using assms(1) by (intro round_double_nonneg) simp
  then have "0 \<le> js_mul (js_div a 100) pool"
    unfolding js_mul_def using assms(2) by (intro round_double_nonneg) simp
  then have v: "0 \<le> js_mul (js_mul (js_div a 100) pool) 100"
    unfolding js_mul_def by (intro round_double_nonneg) simp
  then show ?thesis unfolding payment_cents_def by (simp add: le_floor_iff)
qed

lemma payment_cents_zero_pool: "payment_cents a 0 = 0"
proof -
  have "\<lfloor>1 / 2 :: rat\<rfloor> = 0" by (rule floor_unique) simp_all
  then show ?thesis by (simp add: payment_cents_def js_mul_def)
qed

lemma cents_bounds:
  assumes "0 \<le> n" "n \<le> 10000000000000"
  shows "0 \<le> cents n" "cents n \<le> 100000000000" "\<bar>cents n - of_int n / 100\<bar> \<le> 1 / 80000"
proof -
  show "0 \<le> cents n" using assms(1) by (rule cents_nonneg)
  have "n \<le> 100 * 100000000000" using assms(2) by simp
  then have "cents n \<le> of_int 100000000000" by (rule cents_le_int) simp
  then show "cents n \<le> 100000000000" by simp
  have "(of_int n :: rat) \<le> of_int 10000000000000" using assms(2) by (simp only: of_int_le_iff)
  moreover have "(0 :: rat) \<le> of_int n" using assms(1) by simp
  ultimately have "\<bar>of_int n / 100 :: rat\<bar> \<le> 100000000000" by simp
  from round_double_near[OF this] have "\<bar>cents n - of_int n / 100\<bar> \<le> 100000000000 / 2 ^ 53 + 1 / 2 ^ 100"
    by (simp add: cents_eq)
  moreover have "(100000000000 :: rat) / 2 ^ 53 + 1 / 2 ^ 100 \<le> 1 / 80000" by simp
  ultimately show "\<bar>cents n - of_int n / 100\<bar> \<le> 1 / 80000" by linarith
qed

lemma share_chain:
  fixes A Q u P w v :: rat
  assumes A: "0 \<le> A" "A \<le> 1" and Q: "0 \<le> Q"
    and u: "u \<le> A * (1 + 1 / 2 ^ 53) + 1 / 2 ^ 1075"
    and P: "0 \<le> P" "P \<le> Q * (1 + 1 / 2 ^ 53) + 1 / 2 ^ 1075" "P \<le> 100000000000"
    and w: "w \<le> u * P * (1 + 1 / 2 ^ 53) + 1 / 2 ^ 1075"
    and v: "v \<le> 100 * w * (1 + 1 / 2 ^ 53) + 1 / 2 ^ 1075"
  shows "v \<le> 100 * (A * Q) * (1 + 1 / 2 ^ 50) + 1 / 2 ^ 1029"
proof -
  define E :: rat where "E = 1 + 1 / 2 ^ 53"
  define t :: rat where "t = 1 / 2 ^ 1075"
  define K where "K = A * Q"
  have E: "1 \<le> E" "E \<le> 2" "0 \<le> E" by (simp_all add: E_def)
  have t: "0 \<le> t" by (simp add: t_def)
  have K: "0 \<le> K" unfolding K_def using A(1) Q by simp
  have AE: "0 \<le> A * E" "A * E \<le> 2"
  proof -
    show "0 \<le> A * E" using A(1) E(3) by simp
    have "A * E \<le> 1 * 2" using A E by (intro mult_mono) simp_all
    then show "A * E \<le> 2" by simp
  qed
  have "u * P \<le> (A * E + t) * P"
    using u P(1) unfolding E_def t_def by (rule mult_right_mono)
  also have "\<dots> = A * E * P + t * P" by (simp add: algebra_simps)
  also have "\<dots> \<le> A * E * (Q * E + t) + t * 100000000000"
  proof -
    have "A * E * P \<le> A * E * (Q * E + t)"
      using P(2) AE(1) unfolding E_def t_def by (rule mult_left_mono)
    moreover have "t * P \<le> t * 100000000000" using P(3) t by (rule mult_left_mono)
    ultimately show ?thesis by linarith
  qed
  also have "\<dots> = K * E\<^sup>2 + (A * E) * t + t * 100000000000"
    by (simp add: K_def algebra_simps power2_eq_square)
  also have "\<dots> \<le> K * E\<^sup>2 + 2 * t + t * 100000000000"
  proof -
    have "(A * E) * t \<le> 2 * t" using AE(2) t by (rule mult_right_mono)
    then show ?thesis by linarith
  qed
  finally have uP: "u * P \<le> K * E\<^sup>2 + 100000000002 * t" by (simp add: algebra_simps)
  have "u * P * E \<le> (K * E\<^sup>2 + 100000000002 * t) * E"
    using uP E(3) by (rule mult_right_mono)
  also have "\<dots> = K * E ^ 3 + 100000000002 * (t * E)"
    by (simp add: algebra_simps power2_eq_square power3_eq_cube)
  also have "\<dots> \<le> K * E ^ 3 + 100000000002 * (t * 2)"
  proof -
    have "t * E \<le> t * 2" using E(2) t by (rule mult_left_mono)
    then show ?thesis by linarith
  qed
  finally have "u * P * E \<le> K * E ^ 3 + 200000000004 * t" by simp
  with w have w': "w \<le> K * E ^ 3 + 200000000005 * t" unfolding E_def[symmetric] t_def[symmetric]
    by linarith
  have "100 * w * E \<le> 100 * (K * E ^ 3 + 200000000005 * t) * E"
    using w' E(3) by (intro mult_right_mono mult_left_mono) simp_all
  also have "\<dots> = 100 * (K * E ^ 4) + 20000000000500 * (t * E)"
    by (simp add: algebra_simps power3_eq_cube power4_eq_xxxx)
  also have "\<dots> \<le> 100 * (K * E ^ 4) + 20000000000500 * (t * 2)"
  proof -
    have "t * E \<le> t * 2" using E(2) t by (rule mult_left_mono)
    then show ?thesis by linarith
  qed
  finally have "100 * w * E \<le> 100 * (K * E ^ 4) + 40000000001000 * t" by simp
  with v have v': "v \<le> 100 * (K * E ^ 4) + 40000000001001 * t"
    unfolding E_def[symmetric] t_def[symmetric] by linarith
  have "E ^ 4 \<le> 1 + 1 / 2 ^ 50" unfolding E_def by (simp add: power_divide)
  then have "K * E ^ 4 \<le> K * (1 + 1 / 2 ^ 50)" using K by (rule mult_left_mono)
  moreover have "40000000001001 * t \<le> 1 / 2 ^ 1029" unfolding t_def by simp
  ultimately show ?thesis using v' unfolding K_def by linarith
qed

lemma share_factor:
  assumes "0 \<le> a" "a \<le> 100"
  shows "0 \<le> js_div a 100" "js_div a 100 \<le> 1"
    "js_div a 100 \<le> a / 100 * (1 + 1 / 2 ^ 53) + 1 / 2 ^ 1075"
proof -
  have a: "0 \<le> a / 100" using assms(1) by simp
  show "0 \<le> js_div a 100" unfolding js_div_def using a by (rule round_double_nonneg)
  have "a / 100 \<le> of_int 1" using assms(2) by simp
  then have "round_double (a / 100) \<le> of_int 1" by (rule round_double_le_int) simp
  then show "js_div a 100 \<le> 1" by (simp add: js_div_def)
  show "js_div a 100 \<le> a / 100 * (1 + 1 / 2 ^ 53) + 1 / 2 ^ 1075"
    unfolding js_div_def using a by (rule round_double_above)
qed

lemma payment_cents_le_pool:
  assumes "0 \<le> a" "a \<le> 100" "0 \<le> c" "c \<le> 10000000000000"
  shows "payment_cents a (cents c) \<le> c"
proof -
  define u where "u = js_div a 100"
  define P where "P = cents c"
  define w where "w = round_double (u * P)"
  define v where "v = round_double (w * 100)"
  have u: "0 \<le> u" "u \<le> 1" unfolding u_def by (rule share_factor[OF assms(1,2)])+
  have P: "0 \<le> P" "P \<le> 100000000000" "\<bar>P - of_int c / 100\<bar> \<le> 1 / 80000"
    unfolding P_def by (rule cents_bounds[OF assms(3,4)])+
  have "u * P \<le> 1 * P" using u(2) P(1) by (rule mult_right_mono)
  then have uP: "u * P \<le> P" by simp
  have uP0: "0 \<le> u * P" using u(1) P(1) by simp
  have w0: "0 \<le> w" unfolding w_def using uP0 by (rule round_double_nonneg)
  have "\<bar>P\<bar> \<le> 100000000000" using P(1,2) by simp
  from round_double_near[OF this] have "\<bar>round_double P - P\<bar> \<le> 100000000000 / 2 ^ 53 + 1 / 2 ^ 100" .
  moreover have "(100000000000 :: rat) / 2 ^ 53 + 1 / 2 ^ 100 \<le> 1 / 80000" by simp
  moreover have "w \<le> round_double P" unfolding w_def using uP by (rule round_double_mono)
  ultimately have w1: "w \<le> of_int c / 100 + 1 / 40000" using P(3) by linarith
  have "(of_int c :: rat) \<le> of_int 10000000000000" using assms(4) by (simp only: of_int_le_iff)
  then have c: "(of_int c :: rat) \<le> 10000000000000" by simp
  have "\<bar>w * 100\<bar> \<le> 10000000000001" using w0 w1 c by linarith
  from round_double_near[OF this]
  have "\<bar>v - w * 100\<bar> \<le> 10000000000001 / 2 ^ 53 + 1 / 2 ^ 100" unfolding v_def .
  moreover have "(10000000000001 :: rat) / 2 ^ 53 + 1 / 2 ^ 100 \<le> 1 / 800" by simp
  ultimately have "v \<le> w * 100 + 1 / 800" by linarith
  with w1 have "v + 1 / 2 < of_int c + 1" by linarith
  then have "v + 1 / 2 < of_int (c + 1)" by simp
  then have "\<lfloor>v + 1 / 2\<rfloor> < c + 1" by (simp only: floor_less_iff)
  then show ?thesis
    by (simp add: payment_cents_def js_mul_def v_def w_def u_def P_def)
qed

lemma payment_cents_share:
  assumes "0 \<le> a" "a \<le> 100" "0 \<le> c" "c \<le> 10000000000000"
  shows "of_int (payment_cents a (cents c)) * 100 \<le> 2 * a * of_int c * (1 + 1 / 2 ^ 48)"
proof -
  define u where "u = js_div a 100"
  define P where "P = cents c"
  define w where "w = round_double (u * P)"
  define v where "v = round_double (100 * w)"
  define X :: rat where "X = a * of_int c"
  have m: "payment_cents a (cents c) = \<lfloor>v + 1 / 2\<rfloor>"
    by (simp add: payment_cents_def js_mul_def v_def w_def u_def P_def mult.commute)
  have u: "0 \<le> u" "u \<le> a / 100 * (1 + 1 / 2 ^ 53) + 1 / 2 ^ 1075"
    unfolding u_def by (rule share_factor(1)[OF assms(1,2)], rule share_factor(3)[OF assms(1,2)])
  have P: "0 \<le> P" "P \<le> 100000000000"
    unfolding P_def by (rule cents_bounds(1)[OF assms(3,4)], rule cents_bounds(2)[OF assms(3,4)])
  have c0: "(0 :: rat) \<le> of_int c / 100" using assms(3) by simp
  have P2: "P \<le> of_int c / 100 * (1 + 1 / 2 ^ 53) + 1 / 2 ^ 1075"
    unfolding P_def cents_eq using c0 by (rule round_double_above)
  have uP0: "0 \<le> u * P" using u(1) P(1) by simp
  have w0: "0 \<le> w" unfolding w_def using uP0 by (rule round_double_nonneg)
  have w: "w \<le> u * P * (1 + 1 / 2 ^ 53) + 1 / 2 ^ 1075"
    unfolding w_def using uP0 by (rule round_double_above)
  have w100: "0 \<le> 100 * w" using w0 by simp
  have v0: "0 \<le> v" unfolding v_def using w100 by (rule round_double_nonneg)
  have v: "v \<le> 100 * w * (1 + 1 / 2 ^ 53) + 1 / 2 ^ 1075"
    unfolding v_def using w100 by (rule round_double_above)
  have A: "0 \<le> a / 100" "a / 100 \<le> 1" using assms(1,2) by simp_all
  have "v \<le> 100 * (a / 100 * (of_int c / 100)) * (1 + 1 / 2 ^ 50) + 1 / 2 ^ 1029"
    using A c0 u(2) P(1) P2 P(2) w v by (rule share_chain)
  then have vX: "v \<le> X / 100 * (1 + 1 / 2 ^ 50) + 1 / 2 ^ 1029" by (simp add: X_def)
  have X0: "0 \<le> X" unfolding X_def using assms(1,3) by simp
  show ?thesis
  proof (cases "v < 1 / 2")
    case True
    then have "v + 1 / 2 < of_int 1" by simp
    then have "\<lfloor>v + 1 / 2\<rfloor> < 1" by (simp only: floor_less_iff)
    then have "\<lfloor>v + 1 / 2\<rfloor> \<le> 0" by simp
    then have "(of_int \<lfloor>v + 1 / 2\<rfloor> :: rat) \<le> of_int 0" by (simp only: of_int_le_iff)
    then have l: "(of_int \<lfloor>v + 1 / 2\<rfloor> :: rat) * 100 \<le> 0" by simp
    have r: "0 \<le> 2 * a * of_int c * (1 + 1 / 2 ^ 48)" using assms(1,3) by simp
    from l r show ?thesis unfolding m by (rule order_trans)
  next
    case False
    define Y where "Y = X / 100"
    define T1 where "T1 = Y * (1 + 1 / 2 ^ 50)"
    define T2 where "T2 = Y * (1 / 2 ^ 51)"
    define T3 where "T3 = Y * (1 + 1 / 2 ^ 48)"
    define j :: rat where "j = 1 / 2 ^ 1029"
    have Y0: "0 \<le> Y" unfolding Y_def using X0 by simp
    have vY: "v \<le> T1 + j" using vX by (simp only: Y_def T1_def j_def)
    have fl: "(of_int \<lfloor>v + 1 / 2\<rfloor> :: rat) \<le> v + 1 / 2" by (rule of_int_floor_le)
    have e1: "T1 \<le> Y * 2" unfolding T1_def using Y0 by (intro mult_left_mono) simp_all
    have e2: "j \<le> 1 / 4" unfolding j_def by simp
    from vY e1 e2 False have Y8: "1 / 8 \<le> Y" by linarith
    have "1 / 8 * (1 / 2 ^ 51) \<le> Y * (1 / 2 ^ 51)" using Y8 by (rule mult_right_mono) simp
    moreover have "j \<le> 1 / 8 * (1 / 2 ^ 51)" unfolding j_def by simp
    ultimately have e3: "j \<le> T2" unfolding T2_def by (rule order_trans[rotated])
    have "T1 + T2 = Y * (1 + 1 / 2 ^ 50 + 1 / 2 ^ 51)"
      unfolding T1_def T2_def by (simp only: distrib_left)
    also have "\<dots> \<le> T3" unfolding T3_def using Y0 by (intro mult_left_mono) simp_all
    finally have e4: "T1 + T2 \<le> T3" .
    from vY e3 e4 have "v \<le> T3" by linarith
    moreover have "(of_int \<lfloor>v + 1 / 2\<rfloor> :: rat) \<le> 2 * v" using fl False by linarith
    ultimately have "(of_int \<lfloor>v + 1 / 2\<rfloor> :: rat) * 100 \<le> 2 * T3 * 100" by linarith
    also have "\<dots> = 2 * a * of_int c * (1 + 1 / 2 ^ 48)" by (simp add: T3_def Y_def X_def)
    finally show ?thesis unfolding m .
  qed
qed

lemma elem_le_sum_list:
  fixes xs :: "rat list"
  assumes "\<forall>x\<in>set xs. 0 \<le> x" "y \<in> set xs"
  shows "y \<le> sum_list xs"
  using assms
proof (induction xs)
  case Nil
  then show ?case by simp
next
  case (Cons x xs)
  have rest: "0 \<le> sum_list xs" using Cons.prems(1) by (intro sum_list_nonneg) simp
  show ?case
  proof (cases "y = x")
    case True
    with rest show ?thesis by simp
  next
    case False
    with Cons.prems have "y \<in> set xs" by simp
    with Cons.IH Cons.prems(1) have "y \<le> sum_list xs" by simp
    moreover have "0 \<le> x" using Cons.prems(1) by simp
    ultimately show ?thesis by simp
  qed
qed

lemma payment_cents_weighted_sum:
  assumes "\<forall>s\<in>set steps. 0 \<le> allocation s \<and> allocation s \<le> 100" "0 \<le> c" "c \<le> 10000000000000"
  shows "of_int (\<Sum>s\<leftarrow>steps. payment_cents (allocation s) (cents c)) * 100 \<le>
         sum_list (map allocation steps) * (2 * of_int c * (1 + 1 / 2 ^ 48))"
  using assms(1)
proof (induction steps)
  case Nil
  show ?case by simp
next
  case (Cons s ss)
  have a: "0 \<le> allocation s" "allocation s \<le> 100" using Cons.prems by simp_all
  have "of_int (payment_cents (allocation s) (cents c)) * 100 \<le>
      2 * allocation s * of_int c * (1 + 1 / 2 ^ 48)"
    using a assms(2,3) by (rule payment_cents_share)
  also have "\<dots> = allocation s * (2 * of_int c * (1 + 1 / 2 ^ 48))" by (simp only: mult_ac)
  finally have head: "of_int (payment_cents (allocation s) (cents c)) * 100 \<le>
      allocation s * (2 * of_int c * (1 + 1 / 2 ^ 48))" .
  have tail: "of_int (\<Sum>s\<leftarrow>ss. payment_cents (allocation s) (cents c)) * 100 \<le>
      sum_list (map allocation ss) * (2 * of_int c * (1 + 1 / 2 ^ 48))"
    using Cons.prems by (intro Cons.IH) simp
  have "of_int (\<Sum>s\<leftarrow>s # ss. payment_cents (allocation s) (cents c)) * 100 =
      of_int (payment_cents (allocation s) (cents c)) * 100 +
      of_int (\<Sum>s\<leftarrow>ss. payment_cents (allocation s) (cents c)) * (100 :: rat)"
    by (simp add: algebra_simps)
  also have "\<dots> \<le> allocation s * (2 * of_int c * (1 + 1 / 2 ^ 48)) +
      sum_list (map allocation ss) * (2 * of_int c * (1 + 1 / 2 ^ 48))"
    using head tail by (rule add_mono)
  also have "\<dots> = sum_list (map allocation (s # ss)) * (2 * of_int c * (1 + 1 / 2 ^ 48))"
    by (simp add: distrib_right)
  finally show ?case .
qed

lemma payment_cents_sum:
  assumes "\<forall>s\<in>set steps. 0 \<le> allocation s" "sum_list (map allocation steps) \<le> 100"
    and "0 \<le> c" "c \<le> 10000000000000"
  shows "(\<Sum>s\<leftarrow>steps. payment_cents (allocation s) (cents c)) \<le> 2 * c"
proof -
  define M where "M = (\<Sum>s\<leftarrow>steps. payment_cents (allocation s) (cents c))"
  define F :: rat where "F = 2 * of_int c * (1 + 1 / 2 ^ 48)"
  have nn: "\<forall>x\<in>set (map allocation steps). 0 \<le> x" using assms(1) by simp
  have each: "\<forall>s\<in>set steps. 0 \<le> allocation s \<and> allocation s \<le> 100"
  proof
    fix s assume s: "s \<in> set steps"
    then have "allocation s \<in> set (map allocation steps)" by simp
    with nn have "allocation s \<le> sum_list (map allocation steps)" by (rule elem_le_sum_list)
    with assms(1,2) s show "0 \<le> allocation s \<and> allocation s \<le> 100" by simp
  qed
  have c: "(0 :: rat) \<le> of_int c" "(of_int c :: rat) \<le> 10000000000000"
  proof -
    show "(0 :: rat) \<le> of_int c" using assms(3) by simp
    have "(of_int c :: rat) \<le> of_int 10000000000000" using assms(4) by (simp only: of_int_le_iff)
    then show "(of_int c :: rat) \<le> 10000000000000" by simp
  qed
  have F0: "0 \<le> F" unfolding F_def using c(1) by simp
  have "of_int M * 100 \<le> sum_list (map allocation steps) * F"
    unfolding M_def F_def using each assms(3,4) by (rule payment_cents_weighted_sum)
  also have "\<dots> \<le> 100 * F" using assms(2) F0 by (rule mult_right_mono)
  finally have "(of_int M :: rat) \<le> F" by simp
  moreover have "F = 2 * of_int c + of_int c * (1 / 2 ^ 47)" unfolding F_def by (simp add: algebra_simps)
  moreover have "of_int c * (1 / 2 ^ 47) \<le> 10000000000000 * (1 / 2 ^ 47 :: rat)"
    using c(2) by (rule mult_right_mono) simp
  moreover have "10000000000000 * (1 / 2 ^ 47 :: rat) < 1" by simp
  ultimately have "(of_int M :: rat) < 2 * of_int c + 1" by linarith
  then have "(of_int M :: rat) < of_int (2 * c + 1)" by simp
  then have "M < 2 * c + 1" by (simp only: of_int_less_iff)
  then show ?thesis unfolding M_def by simp
qed

lemma pool_cents_bounds:
  assumes "0 \<le> b" "b \<le> 10 ^ 11"
  shows "0 \<le> pool_cents b" "pool_cents b \<le> 10000000000000"
    "of_int (pool_cents b) \<le> 30 * b + 1 / 2 + 1 / 400"
proof -
  define x1 where "x1 = round_double (b * AGENT_BUDGET_RATIO)"
  define x2 where "x2 = round_double (x1 * 100)"
  have c: "pool_cents b = \<lfloor>x2 + 1 / 2\<rfloor>" by (simp add: pool_cents_def js_mul_def x1_def x2_def)
  have "b * AGENT_BUDGET_RATIO \<le> b * (3 / 10)"
    using ratio_bounds(2) assms(1) by (rule mult_left_mono)
  moreover have "0 \<le> b * AGENT_BUDGET_RATIO" using ratio_bounds(1) assms(1) by simp
  ultimately have br: "0 \<le> b * AGENT_BUDGET_RATIO" "b * AGENT_BUDGET_RATIO \<le> 3 * b / 10"
    "b * AGENT_BUDGET_RATIO \<le> 100000000000" using assms(2) by simp_all
  have "\<bar>b * AGENT_BUDGET_RATIO\<bar> \<le> 100000000000" using br(1,3) by simp
  from round_double_near[OF this]
  have "\<bar>x1 - b * AGENT_BUDGET_RATIO\<bar> \<le> 100000000000 / 2 ^ 53 + 1 / 2 ^ 100" unfolding x1_def .
  moreover have "(100000000000 :: rat) / 2 ^ 53 + 1 / 2 ^ 100 \<le> 1 / 80000" by simp
  ultimately have x1: "x1 \<le> 3 * b / 10 + 1 / 80000" using br(2) by linarith
  have x10: "0 \<le> x1" unfolding x1_def using br(1) by (rule round_double_nonneg)
  have "b * AGENT_BUDGET_RATIO \<le> of_int 100000000000" using br(3) by simp
  then have "x1 \<le> of_int 100000000000" unfolding x1_def by (rule round_double_le_int) simp
  then have x1h: "x1 \<le> 100000000000" by simp
  have "\<bar>x1 * 100\<bar> \<le> 10000000000000" using x10 x1h by simp
  from round_double_near[OF this]
  have "\<bar>x2 - x1 * 100\<bar> \<le> 10000000000000 / 2 ^ 53 + 1 / 2 ^ 100" unfolding x2_def .
  moreover have "(10000000000000 :: rat) / 2 ^ 53 + 1 / 2 ^ 100 \<le> 1 / 800" by simp
  ultimately have x2: "x2 \<le> 30 * b + 1 / 400" using x1 by linarith
  have "0 \<le> x1 * 100" using x10 by simp
  then have x20: "0 \<le> x2" unfolding x2_def by (rule round_double_nonneg)
  have "x1 * 100 \<le> of_int 10000000000000" using x1h by simp
  then have "x2 \<le> of_int 10000000000000" unfolding x2_def by (rule round_double_le_int) simp
  then have x2h: "x2 \<le> 10000000000000" by simp
  have "of_int 0 \<le> x2 + 1 / 2" using x20 by simp
  then have "0 \<le> \<lfloor>x2 + 1 / 2\<rfloor>" by (simp only: le_floor_iff)
  then show "0 \<le> pool_cents b" by (simp only: c)
  have "x2 + 1 / 2 < of_int (10000000000000 + 1)" using x2h by simp
  then have "\<lfloor>x2 + 1 / 2\<rfloor> < 10000000000000 + 1" by (simp only: floor_less_iff)
  then show "pool_cents b \<le> 10000000000000" by (simp add: c)
  have "(of_int \<lfloor>x2 + 1 / 2\<rfloor> :: rat) \<le> x2 + 1 / 2" by (rule of_int_floor_le)
  with x2 show "of_int (pool_cents b) \<le> 30 * b + 1 / 2 + 1 / 400" unfolding c by linarith
qed

lemma first_payment:
  assumes "0 < b" "b \<le> 10 ^ 11" "0 \<le> m" "m \<le> pool_cents b"
  shows "cents m \<le> b"
    and "\<exists>n. deduct b (cents m) = cents n \<and> 2 * pool_cents b - m \<le> n \<and> 0 \<le> n \<and> n \<le> 10000000000000"
proof -
  define c where "c = pool_cents b"
  define p where "p = cents m"
  define d where "d = round_double (b - p)"
  define y where "y = round_double (d * 100)"
  have b0: "0 \<le> b" using assms(1) by simp
  have c: "0 \<le> c" "c \<le> 10000000000000" "of_int c \<le> 30 * b + 1 / 2 + 1 / 400"
    unfolding c_def by (rule pool_cents_bounds[OF b0 assms(2)])+
  have mc: "m \<le> c" using assms(4) by (simp add: c_def)
  have m13: "m \<le> 10000000000000" using mc c(2) by simp
  have p: "0 \<le> p" "p \<le> 100000000000" "\<bar>p - of_int m / 100\<bar> \<le> 1 / 80000"
    unfolding p_def by (rule cents_bounds[OF assms(3) m13])+
  have mcr: "(of_int m :: rat) \<le> of_int c" using mc by (simp only: of_int_le_iff)
  have big: "199 / 12000 \<le> b" if "1 \<le> c"
  proof -
    have "(of_int 1 :: rat) \<le> of_int c" using that by (simp only: of_int_le_iff)
    with c(3) show ?thesis by simp
  qed
  show pb: "cents m \<le> b"
  proof (cases "m = 0")
    case True
    then show ?thesis using b0 by simp
  next
    case False
    with assms(3) mc have "1 \<le> c" by simp
    from big[OF this] p(3) mcr c(3) show ?thesis unfolding p_def by linarith
  qed
  have bp: "0 \<le> b - p" "b - p \<le> 100000000000" using pb p(1) assms(2) by (simp_all add: p_def)
  have "\<bar>b - p\<bar> \<le> 100000000000" using bp by simp
  from round_double_near[OF this]
  have "\<bar>d - (b - p)\<bar> \<le> 100000000000 / 2 ^ 53 + 1 / 2 ^ 100" unfolding d_def .
  moreover have "(100000000000 :: rat) / 2 ^ 53 + 1 / 2 ^ 100 \<le> 1 / 80000" by simp
  ultimately have d: "b - p - 1 / 80000 \<le> d" by linarith
  have d0: "0 \<le> d" unfolding d_def using bp(1) by (rule round_double_nonneg)
  have "b - p \<le> of_int 100000000000" using bp(2) by simp
  then have "d \<le> of_int 100000000000" unfolding d_def by (rule round_double_le_int) simp
  then have dh: "d \<le> 100000000000" by simp
  have "\<bar>d * 100\<bar> \<le> 10000000000000" using d0 dh by simp
  from round_double_near[OF this]
  have "\<bar>y - d * 100\<bar> \<le> 10000000000000 / 2 ^ 53 + 1 / 2 ^ 100" unfolding y_def .
  moreover have "(10000000000000 :: rat) / 2 ^ 53 + 1 / 2 ^ 100 \<le> 1 / 800" by simp
  ultimately have y: "100 * b - of_int m - 1 / 200 \<le> y" using d p(3) by linarith
  have "0 \<le> d * 100" using d0 by simp
  then have y0: "0 \<le> y" unfolding y_def by (rule round_double_nonneg)
  have "d * 100 \<le> of_int 10000000000000" using dh by simp
  then have "y \<le> of_int 10000000000000" unfolding y_def by (rule round_double_le_int) simp
  then have yh: "y \<le> 10000000000000" by simp
  have eq: "deduct b (cents m) = cents \<lfloor>y + 1 / 2\<rfloor>"
    by (simp add: deduct_def js_sub_def js_mul_def cents_def Math_round_def y_def d_def p_def)
  have "of_int 0 \<le> y + 1 / 2" using y0 by simp
  then have n0: "0 \<le> \<lfloor>y + 1 / 2\<rfloor>" by (simp only: le_floor_iff)
  have "y + 1 / 2 < of_int (10000000000000 + 1)" using yh by simp
  then have "\<lfloor>y + 1 / 2\<rfloor> < 10000000000000 + 1" by (simp only: floor_less_iff)
  then have nh: "\<lfloor>y + 1 / 2\<rfloor> \<le> 10000000000000" by simp
  have "2 * of_int c - of_int m \<le> y + 1 / 2"
  proof (cases "c = 0")
    case True
    with y assms(1) show ?thesis by simp
  next
    case False
    with c(1) have "1 \<le> c" by simp
    from big[OF this] y c(3) show ?thesis by linarith
  qed
  then have "of_int (2 * c - m) \<le> y + 1 / 2" by simp
  then have "2 * c - m \<le> \<lfloor>y + 1 / 2\<rfloor>" by (simp only: le_floor_iff)
  with eq n0 nh show "\<exists>n. deduct b (cents m) = cents n \<and> 2 * pool_cents b - m \<le> n \<and>
      0 \<le> n \<and> n \<le> 10000000000000"
    unfolding c_def by blast
qed

lemma run_steps_covered:
  assumes "\<forall>s\<in>set steps. 0 \<le> payment_cents (allocation s) pool"
    and "remainingBudget st = cents n"
    and "(\<Sum>s\<leftarrow>steps. payment_cents (allocation s) pool) \<le> n" "n \<le> 2 ^ 47 - 1"
  shows "snd (run_steps env pool k steps st) \<noteq> Budget_exhausted"
  using assms
proof (induction steps arbitrary: k st n)
  case Nil
  show ?case by simp
next
  case (Cons s ss)
  define m where "m = payment_cents (allocation s) pool"
  define rest where "rest = (\<Sum>s\<leftarrow>ss. payment_cents (allocation s) pool)"
  have m0: "0 \<le> m" using Cons.prems(1) by (simp add: m_def)
  have pos: "\<forall>s\<in>set ss. 0 \<le> payment_cents (allocation s) pool" using Cons.prems(1) by simp
  have "\<forall>x\<in>set (map (\<lambda>s. payment_cents (allocation s) pool) ss). 0 \<le> x" using pos by simp
  then have "0 \<le> sum_list (map (\<lambda>s. payment_cents (allocation s) pool) ss)"
    by (intro sum_list_nonneg) blast
  then have rest0: "0 \<le> rest" by (simp only: rest_def)
  have sum: "m + rest \<le> n" using Cons.prems(3) by (simp add: m_def rest_def)
  have mn: "m \<le> n" using sum rest0 by linarith
  have p: "payment (allocation s) pool = cents m" unfolding m_def by (rule payment_as_cents)
  have "cents m \<le> cents n" using mn by (rule cents_mono)
  then have guard: "\<not> remainingBudget st < payment (allocation s) pool"
    by (simp add: Cons.prems(2) p)
  have n47: "\<bar>n\<bar> \<le> 2 ^ 47" "\<bar>m\<bar> \<le> 2 ^ 47" using m0 mn Cons.prems(4) by linarith+
  have left: "deduct (remainingBudget st) (payment (allocation s) pool) = cents (n - m)"
    unfolding Cons.prems(2) p using n47 by (rule deduct_cents)
  have rest': "rest \<le> n - m" "n - m \<le> 2 ^ 47 - 1" using sum m0 Cons.prems(4) by linarith+
  show ?case
  proof (cases "runSubAgent env k")
    case (Inl e)
    with guard show ?thesis by (simp add: Let_def)
  next
    case res: (Inr res)
    show ?thesis
    proof (cases "paySubAgent env k")
      case (Inl e)
      with guard res show ?thesis by (simp add: Let_def)
    next
      case (Inr txId)
      let ?p = "payment (allocation s) pool"
      let ?st1 = "st\<lparr>events := events st @ [Step_start (agent s) (task s) (allocation s) ?p]\<rparr>"
      let ?st2 = "?st1\<lparr>remainingBudget := cents (n - m),
          events := events ?st1 @ [Step_complete (agent s) (task s) ?p txId (cents (n - m))],
          results := results ?st1 @ [(agent s, task s, res)]\<rparr>"
      have run: "run_steps env pool k (s # ss) st = run_steps env pool (Suc k) ss ?st2"
        using guard res Inr left by (simp add: Let_def)
      have "remainingBudget ?st2 = cents (n - m)" by simp
      with pos have "snd (run_steps env pool (Suc k) ss ?st2) \<noteq> Budget_exhausted"
        using rest'(1)[unfolded rest_def] rest'(2) by (rule Cons.IH)
      then show ?thesis unfolding run .
    qed
  qed
qed

lemma run_steps_from_budget:
  assumes "0 < b" "b \<le> 10 ^ 11"
    and "\<forall>s\<in>set steps. 0 \<le> allocation s" "sum_list (map allocation steps) \<le> 100"
    and "remainingBudget st = b"
  shows "snd (run_steps env (totalAgentBudget b) k steps st) \<noteq> Budget_exhausted"
proof (cases steps)
  case Nil
  then show ?thesis by simp
next
  case (Cons s ss)
  define c where "c = pool_cents b"
  define m where "m = payment_cents (allocation s) (cents c)"
  have b0: "0 \<le> b" using assms(1) by simp
  have c: "0 \<le> c" "c \<le> 10000000000000"
    unfolding c_def by (rule pool_cents_bounds(1)[OF b0 assms(2)], rule pool_cents_bounds(2)[OF b0 assms(2)])
  have pool: "totalAgentBudget b = cents c" unfolding c_def by (rule pool_as_cents)
  have pool0: "0 \<le> cents c" using c(1) by (rule cents_nonneg)
  have nn: "\<forall>x\<in>set (map allocation steps). 0 \<le> x" using assms(3) by simp
  have a: "0 \<le> allocation s" "allocation s \<le> 100"
  proof -
    show "0 \<le> allocation s" using assms(3) Cons by simp
    have "allocation s \<in> set (map allocation steps)" using Cons by simp
    with nn have "allocation s \<le> sum_list (map allocation steps)" by (rule elem_le_sum_list)
    with assms(4) show "allocation s \<le> 100" by simp
  qed
  have m0: "0 \<le> m" unfolding m_def using a(1) pool0 by (rule payment_cents_nonneg)
  have mc: "m \<le> pool_cents b" unfolding m_def using a c by (simp only: c_def[symmetric] payment_cents_le_pool)
  have p: "payment (allocation s) (totalAgentBudget b) = cents m"
    unfolding m_def pool by (rule payment_as_cents)
  have "cents m \<le> b" using assms(1,2) m0 mc by (rule first_payment(1))
  then have guard: "\<not> remainingBudget st < payment (allocation s) (totalAgentBudget b)"
    by (simp add: p assms(5))
  from first_payment(2)[OF assms(1,2) m0 mc] obtain n where
    n: "deduct b (cents m) = cents n" "2 * c - m \<le> n" "n \<le> 10000000000000"
    unfolding c_def by blast
  have "(\<Sum>s\<leftarrow>steps. payment_cents (allocation s) (cents c)) \<le> 2 * c"
    using assms(3,4) c by (rule payment_cents_sum)
  then have rest: "(\<Sum>s\<leftarrow>ss. payment_cents (allocation s) (cents c)) \<le> n"
    using n(2) by (simp add: Cons m_def)
  have pos: "\<forall>s\<in>set ss. 0 \<le> payment_cents (allocation s) (cents c)"
  proof
    fix s' assume "s' \<in> set ss"
    with assms(3) Cons have "0 \<le> allocation s'" by simp
    then show "0 \<le> payment_cents (allocation s') (cents c)" using pool0 by (rule payment_cents_nonneg)
  qed
  have n47: "n \<le> 2 ^ 47 - 1" using n(3) by simp
  show ?thesis
  proof (cases "runSubAgent env k")
    case (Inl e)
    with guard show ?thesis by (simp add: Cons Let_def)
  next
    case res: (Inr res)
    show ?thesis
    proof (cases "paySubAgent env k")
      case (Inl e)
      with guard res show ?thesis by (simp add: Cons Let_def)
    next
      case (Inr txId)
      let ?p = "payment (allocation s) (totalAgentBudget b)"
      let ?st1 = "st\<lparr>events := events st @ [Step_start (agent s) (task s) (allocation s) ?p]\<rparr>"
      let ?st2 = "?st1\<lparr>remainingBudget := cents n,
          events := events ?st1 @ [Step_complete (agent s) (task s) ?p txId (cents n)],
          results := results ?st1 @ [(agent s, task s, res)]\<rparr>"
      have left: "deduct (remainingBudget st) ?p = cents n" by (simp only: assms(5) p n(1))
      have run: "run_steps env (totalAgentBudget b) k steps st =
          run_steps env (totalAgentBudget b) (Suc k) ss ?st2"
        using guard res Inr left by (simp add: Cons Let_def)
      have "remainingBudget ?st2 = cents n" by simp
      with pos have "snd (run_steps env (cents c) (Suc k) ss ?st2) \<noteq> Budget_exhausted"
        using rest n47 by (rule run_steps_covered)
      then show ?thesis unfolding run unfolding pool .
    qed
  qed
qed

lemma run_steps_finished:
  assumes "run_steps env pool k steps st = (st', Finished)"
  shows "map (\<lambda>(a, t, r). (a, t)) (results st') =
         map (\<lambda>(a, t, r). (a, t)) (results st) @ map (\<lambda>s. (agent s, task s)) steps"
  using assms
proof (induction steps arbitrary: k st)
  case Nil
  then show ?case by simp
next
  case (Cons s ss)
  let ?p = "payment (allocation s) pool"
  let ?st1 = "st\<lparr>events := events st @ [Step_start (agent s) (task s) (allocation s) ?p]\<rparr>"
  from Cons.prems have guard: "\<not> remainingBudget st < ?p"
    by (auto simp: Let_def split: if_splits)
  from Cons.prems guard obtain res where res: "runSubAgent env k = Inr res"
    by (cases "runSubAgent env k") (simp_all add: Let_def)
  from Cons.prems guard res obtain txId where tx: "paySubAgent env k = Inr txId"
    by (cases "paySubAgent env k") (simp_all add: Let_def)
  let ?left = "deduct (remainingBudget st) ?p"
  let ?st2 = "?st1\<lparr>remainingBudget := ?left,
      events := events ?st1 @ [Step_complete (agent s) (task s) ?p txId ?left],
      results := results ?st1 @ [(agent s, task s, res)]\<rparr>"
  from Cons.prems guard res tx have "run_steps env pool (Suc k) ss ?st2 = (st', Finished)"
    by (simp add: Let_def)
  from Cons.IH[OF this] show ?case by simp
qed

lemma run_steps_no_throw:
  assumes "\<forall>k. \<exists>v. runSubAgent env k = Inr v" "\<forall>k. \<exists>txId. paySubAgent env k = Inr txId"
  shows "snd (run_steps env pool k steps st) \<noteq> Threw e"
proof (induction steps arbitrary: k st)
  case Nil
  show ?case by simp
next
  case (Cons s ss)
  from assms(1) obtain res where res: "runSubAgent env k = Inr res" by blast
  from assms(2) obtain txId where tx: "paySubAgent env k = Inr txId" by blast
  show ?case using Cons.IH by (simp add: res tx Let_def)
qed


end
